theory Spec2Isabelle
  imports Main "HOL-Library.Sublist" "HOL-Library.Multiset"
begin

section \<open>Configuration constants of \<open>src/tests/test-doj.spec.ts\<close>\<close>

definition BASE_URL :: string where
  "BASE_URL = ''https://www.justice.gov/epstein/doj-disclosures/data-set-9-files''"

definition MAX_PAGE :: int where
  "MAX_PAGE = 1000000003"

definition CONCURRENCY :: nat where
  "CONCURRENCY = 1"

definition EMPTY_PAGES_BEFORE_STOP :: nat where
  "EMPTY_PAGES_BEFORE_STOP = 30"

definition CHECKPOINT_INTERVAL :: nat where
  "CHECKPOINT_INTERVAL = 50"

definition MAX_RETRIES :: int where
  "MAX_RETRIES = 5"

definition RETRY_BASE_DELAY_MS :: int where
  "RETRY_BASE_DELAY_MS = 2000"

definition BLOCKED_BACKOFF_MS :: int where
  "BLOCKED_BACKOFF_MS = 30000"

definition MAX_BLOCKED_BEFORE_STOP :: nat where
  "MAX_BLOCKED_BEFORE_STOP = 3"

section \<open>The fetcher: \<open>isBlockedResponse\<close> and \<open>fetchWithRetry\<close>\<close>

text \<open>
  \<open>String.prototype.includes\<close>: the needle occurs somewhere in the text (the empty
  needle occurs in every text).
\<close>

fun includes_str :: "string \<Rightarrow> string \<Rightarrow> bool" where
  "includes_str [] needle = (needle = [])"
| "includes_str (c # cs) needle = (prefix needle (c # cs) \<or> includes_str cs needle)"

definition isBlockedResponse :: "string \<Rightarrow> bool" where
  "isBlockedResponse html =
     (includes_str html ''Access Denied'' \<or>
      includes_str html ''don't have permission'' \<or>
      includes_str html ''Reference #'' \<or>
      includes_str html ''errors.edgesuite.net'')"

text \<open>
  What one pass through the \<open>try\<close> block observes: \<open>request.get\<close> or
  \<open>response.text\<close> throws, or a response arrives with its status code and body.
\<close>

datatype Attempt = Threw | Response int string

text \<open>\<open>response.ok()\<close> of the request API: the status lies in 200..299.\<close>

definition ok :: "int \<Rightarrow> bool" where
  "ok status = (200 \<le> status \<and> status \<le> 299)"

datatype FetchResult = Ok string | Blocked | Error | Empty

text \<open>
  A run of \<open>fetchWithRetry\<close>: the value it resolves to, the number of calls of
  \<open>request.get\<close> it made, and the delays it slept, in order.
\<close>

record FetchRun =
  result :: FetchResult
  attempts :: nat
  slept :: "int list"

definition retryAfter :: "int \<Rightarrow> FetchRun \<Rightarrow> FetchRun" where
  "retryAfter delay run = run\<lparr>attempts := Suc (attempts run), slept := delay # slept run\<rparr>"

definition finish :: "FetchResult \<Rightarrow> FetchRun" where
  "finish r = \<lparr>result = r, attempts = 1, slept = []\<rparr>"

text \<open>
  The \<open>for (let attempt = 0; attempt <= retries; attempt++)\<close> loop, entered at
  \<open>attempt\<close>. The argument \<open>request\<close> gives what the \<open>attempt\<close>-th call observes.
  Falling out of the loop reaches the last line, \<open>return { status: 'error' }\<close>, which
  made no call.
\<close>

function fetchLoop :: "(nat \<Rightarrow> Attempt) \<Rightarrow> int \<Rightarrow> nat \<Rightarrow> FetchRun" where
  "fetchLoop request retries attempt =
     (if int attempt \<le> retries then
        (case request attempt of
           Response status html \<Rightarrow>
             if isBlockedResponse html then
               (if int attempt < retries
                then retryAfter (BLOCKED_BACKOFF_MS * (int attempt + 1))
                       (fetchLoop request retries (Suc attempt))
                else finish Blocked)
             else if ok status then finish (Ok html)
             else if (status = 403 \<or> status = 429 \<or> status \<ge> 500) \<and> int attempt < retries
               then retryAfter (RETRY_BASE_DELAY_MS * 2 ^ attempt)
                      (fetchLoop request retries (Suc attempt))
             else finish Error
         | Threw \<Rightarrow>
             if int attempt < retries
             then retryAfter (RETRY_BASE_DELAY_MS * 2 ^ attempt)
                    (fetchLoop request retries (Suc attempt))
             else finish Error)
      else \<lparr>result = Error, attempts = 0, slept = []\<rparr>)"
  by pat_completeness auto
termination
  by (relation "measure (\<lambda>(request, retries, attempt). nat (retries + 1 - int attempt))") auto

declare fetchLoop.simps [simp del]

definition fetchWithRetry :: "(nat \<Rightarrow> Attempt) \<Rightarrow> int \<Rightarrow> FetchRun" where
  "fetchWithRetry request retries = fetchLoop request retries 0"

text \<open>
  The rungs of the retry ladder, read off the branches of the loop body: an attempt is on
  the blocked path when its body carries a denial marker (whatever its status); on the
  error path when the call threw, or the body is clean and the status is not a success and
  is 403, 429 or at least 500; an OK response when the body is clean and the status is a
  success. Any other attempt (say a clean 404) is refused at once.
\<close>

definition blockedPath :: "Attempt \<Rightarrow> bool" where
  "blockedPath a = (case a of Threw \<Rightarrow> False | Response status html \<Rightarrow> isBlockedResponse html)"

definition errorPath :: "Attempt \<Rightarrow> bool" where
  "errorPath a =
     (case a of
        Threw \<Rightarrow> True
      | Response status html \<Rightarrow>
          \<not> isBlockedResponse html \<and> \<not> ok status \<and>
          (status = 403 \<or> status = 429 \<or> status \<ge> 500))"

definition okResponse :: "Attempt \<Rightarrow> bool" where
  "okResponse a =
     (case a of Threw \<Rightarrow> False | Response status html \<Rightarrow> \<not> isBlockedResponse html \<and> ok status)"

definition backoff :: "Attempt \<Rightarrow> nat \<Rightarrow> int" where
  "backoff a attempt =
     (if blockedPath a then BLOCKED_BACKOFF_MS * (int attempt + 1)
      else RETRY_BASE_DELAY_MS * 2 ^ attempt)"

section \<open>Page URLs\<close>

text \<open>
  Page numbers are JavaScript numbers holding integers. A template literal prints such a
  number in decimal, with a leading minus sign when it is negative, as long as the number
  holds its integer exactly, that is up to \<open>2 ^ 53\<close> in absolute value (beyond that a
  number prints rounded digits, and an exponent from \<open>10 ^ 21\<close> on). \<open>numberToString\<close>
  is that decimal print; what is proved of it is stated for integers in this range, which
  holds every page up to \<open>MAX_PAGE\<close>.
\<close>

definition digit :: "nat \<Rightarrow> char" where
  "digit d = ''0123456789'' ! d"

fun natToString :: "nat \<Rightarrow> string" where
  "natToString n = (if n < 10 then [digit n] else natToString (n div 10) @ [digit (n mod 10)])"

declare natToString.simps [simp del]

definition numberToString :: "int \<Rightarrow> string" where
  "numberToString n = (if n < 0 then ''-'' @ natToString (nat (- n)) else natToString (nat n))"

text \<open>\<open>formatPageUrl\<close> of \<open>test-doj.spec.ts\<close>.\<close>

definition formatPageUrl :: "int \<Rightarrow> string" where
  "formatPageUrl pageNumber = BASE_URL @ ''?page='' @ numberToString pageNumber"

text \<open>
  The URL that \<open>scrapePage\<close> of \<open>doj-pdf-scraper.spec.ts\<close> and \<open>test-1.spec.ts\<close>
  navigates to (both files use the same base URL).
\<close>

definition scrapePage_url :: "int \<Rightarrow> string" where
  "scrapePage_url pageNum =
     (if pageNum = 1 then BASE_URL else BASE_URL @ ''?page='' @ numberToString pageNum)"

section \<open>The progress file and the start page\<close>

record ProgressState =
  lastProcessedPage :: int
  totalLinksFound :: nat
  timestamp :: string

text \<open>
  What \<open>readProgress\<close> finds: no file (\<open>ENOENT\<close>), a file that cannot be read or
  parsed, or the JSON that \<open>writeProgress\<close> stored.
\<close>

datatype ProgressFile = NoProgress | CorruptProgress | StoredProgress ProgressState

definition readProgress :: "ProgressFile \<Rightarrow> ProgressState option" where
  "readProgress file =
     (case file of
        StoredProgress state \<Rightarrow> Some state
      | NoProgress \<Rightarrow> None
      | CorruptProgress \<Rightarrow> None)"

text \<open>
  The start page of a session. \<open>envStartPage\<close> is the constant of that name: \<open>None\<close>
  for \<open>null\<close> (no \<open>START_PAGE\<close> in the environment, or an empty one), else the integer
  that \<open>parseInt\<close> read.
\<close>

definition startPage :: "int option \<Rightarrow> ProgressState option \<Rightarrow> int" where
  "startPage envStartPage existingProgress =
     (let resumePage = (case existingProgress of Some p \<Rightarrow> lastProcessedPage p | None \<Rightarrow> - 1)
      in case envStartPage of Some override \<Rightarrow> override | None \<Rightarrow> resumePage + 1)"

section \<open>The link file\<close>

text \<open>
  Characters are the code units below 256. \<open>String.prototype.trim\<close> strips white space
  and line terminators: among these code units TAB, LF, VT, FF, CR, space and the
  no-break space.
\<close>

definition isWhiteSpace :: "char \<Rightarrow> bool" where
  "isWhiteSpace c = (c \<in> {CHR 0x09, CHR 0x0A, CHR 0x0B, CHR 0x0C, CHR 0x0D, CHR 0x20, CHR 0xA0})"

definition trim :: "string \<Rightarrow> string" where
  "trim s = rev (dropWhile isWhiteSpace (rev (dropWhile isWhiteSpace s)))"

text \<open>\<open>contents.split('\n')\<close>: the pieces between line feeds, one more than line feeds.\<close>

fun split_lines :: "string \<Rightarrow> string list" where
  "split_lines [] = [[]]"
| "split_lines (c # cs) =
     (if c = CHR 0x0A then [] # split_lines cs
      else (case split_lines cs of l # ls \<Rightarrow> (c # l) # ls | [] \<Rightarrow> [[c]]))"

text \<open>The loop of \<open>readExistingLinks\<close> over the lines, with its \<open>seen\<close> and \<open>deduped\<close>.\<close>

fun dedupe :: "string set \<Rightarrow> string list \<Rightarrow> string list \<Rightarrow> string list" where
  "dedupe seen deduped [] = deduped"
| "dedupe seen deduped (line # lines) =
     (if line \<notin> seen then dedupe (insert line seen) (deduped @ [line]) lines
      else dedupe seen deduped lines)"

text \<open>What \<open>fs.readFile\<close> does: no such file, another failure, or the contents.\<close>

datatype FileRead = ENOENT | ReadFailed | Contents string

text \<open>The exceptions that leave a function of the scraper.\<close>

datatype Thrown = FsError | InvalidURL

definition readExistingLinks :: "FileRead \<Rightarrow> Thrown + string list" where
  "readExistingLinks file =
     (case file of
        Contents contents \<Rightarrow>
          Inr (dedupe {} [] (filter (\<lambda>line. line \<noteq> []) (map trim (split_lines contents))))
      | ENOENT \<Rightarrow> Inr []
      | ReadFailed \<Rightarrow> Inl FsError)"

text \<open>\<open>links.join('\n')\<close>.\<close>

fun join :: "string \<Rightarrow> string list \<Rightarrow> string" where
  "join sep [] = []"
| "join sep [x] = x"
| "join sep (x # y # ys) = x @ sep @ join sep (y # ys)"

text \<open>The text that \<open>writeLinks\<close> writes to the link file.\<close>

definition writeLinks :: "string list \<Rightarrow> string" where
  "writeLinks links = (if length links > 0 then join [CHR 0x0A] links @ [CHR 0x0A] else [])"

text \<open>
  All that the link file asks of a link, and what every string returned by
  \<open>URL.prototype.toString\<close> meets: it is not empty, holds no line feed, and has no white
  space at either end.
\<close>

definition linkLine :: "string \<Rightarrow> bool" where
  "linkLine u = (u \<noteq> [] \<and> CHR 0x0A \<notin> set u \<and> trim u = u)"

text \<open>A string that \<open>trim\<close> leaves alone: empty, or without white space at either end.\<close>

definition trimmed :: "string \<Rightarrow> bool" where
  "trimmed s = (s = [] \<or> (\<not> isWhiteSpace (hd s) \<and> \<not> isWhiteSpace (last s)))"

section \<open>The session of \<open>test-doj.spec.ts\<close>\<close>

text \<open>
  What the test body does not define itself: the delay between batches (read from the
  environment), \<open>new URL(href, BASE_URL).toString()\<close> (\<open>None\<close> when the constructor
  throws), the hrefs that the regular expression \<open>/href="([^"]+\.pdf)"/gi\<close> finds in a
  page, the clock, and the server: what the \<open>attempt\<close>-th request for a URL observes in
  a given round of dispatch.
\<close>

record World =
  BATCH_DELAY_MS :: int
  toAbsolute :: "string \<Rightarrow> string option"
  matchHrefs :: "string \<Rightarrow> string list"
  clock :: "nat \<Rightarrow> string"
  network :: "nat \<Rightarrow> string \<Rightarrow> nat \<Rightarrow> Attempt"

text \<open>
  The variables of the test body. Its effects are kept as logs: the batches dispatched, the
  delays slept between batches, and the checkpoints written (progress record and text of
  the link file).
\<close>

record Session =
  uniqueLinks :: "string set"
  allLinks :: "string list"
  pagesProcessed :: nat
  linksFoundThisRun :: nat
  newLinksThisRun :: nat
  emptyPagesInARow :: nat
  batchCount :: nat
  shouldStop :: bool
  lastProcessedPage' :: int
  blockedCount :: nat
  start :: int
  dispatched :: "int list list"
  sleeps :: "int list"
  saved :: "(ProgressState \<times> string) list"

record BatchResult =
  pageNumber :: int
  hrefs :: "string list"
  blocked :: bool

definition saveCheckpoint :: "World \<Rightarrow> int \<Rightarrow> Session \<Rightarrow> Session" where
  "saveCheckpoint w lastPage st =
     (let state = \<lparr>lastProcessedPage = lastPage,
                   totalLinksFound = card (uniqueLinks st),
                   timestamp = clock w (length (saved st))\<rparr>
      in st\<lparr>saved := saved st @ [(state, writeLinks (allLinks st))]\<rparr>)"

text \<open>The body of \<open>for (const href of result.hrefs)\<close>, after the URL is resolved.\<close>

definition admit :: "string \<Rightarrow> Session \<Rightarrow> Session" where
  "admit absoluteUrl st =
     (if absoluteUrl \<notin> uniqueLinks st
      then st\<lparr>uniqueLinks := insert absoluteUrl (uniqueLinks st),
              allLinks := allLinks st @ [absoluteUrl],
              newLinksThisRun := newLinksThisRun st + 1\<rparr>
      else st)"

fun admitHrefs :: "World \<Rightarrow> string list \<Rightarrow> Session \<Rightarrow> Thrown + Session" where
  "admitHrefs w [] st = Inr st"
| "admitHrefs w (href # rest) st =
     (case toAbsolute w href of
        None \<Rightarrow> Inl InvalidURL
      | Some absoluteUrl \<Rightarrow> admitHrefs w rest (admit absoluteUrl st))"

text \<open>How the body of a loop ends: it falls through (or \<open>continue\<close>s), or it \<open>break\<close>s.\<close>

datatype Flow = Next | Break

text \<open>The body of \<open>for (const result of batchResults)\<close>.\<close>

definition processResult :: "World \<Rightarrow> BatchResult \<Rightarrow> Session \<Rightarrow> Thrown + Flow \<times> Session" where
  "processResult w r st =
     (if blocked r then Inr (Next, st)
      else
        let st1 = st\<lparr>lastProcessedPage' := pageNumber r\<rparr> in
        if length (hrefs r) = 0 then
          let st2 = st1\<lparr>emptyPagesInARow := emptyPagesInARow st1 + 1\<rparr> in
          if emptyPagesInARow st2 \<ge> EMPTY_PAGES_BEFORE_STOP
          then Inr (Break, st2\<lparr>shouldStop := True\<rparr>)
          else Inr (Next, st2)
        else
          let st2 = st1\<lparr>emptyPagesInARow := 0,
                        pagesProcessed := pagesProcessed st1 + 1,
                        linksFoundThisRun := linksFoundThisRun st1 + length (hrefs r)\<rparr> in
          case admitHrefs w (hrefs r) st2 of
            Inl e \<Rightarrow> Inl e
          | Inr st3 \<Rightarrow> Inr (Next, st3))"

fun processResults :: "World \<Rightarrow> BatchResult list \<Rightarrow> Session \<Rightarrow> Thrown + Session" where
  "processResults w [] st = Inr st"
| "processResults w (r # rs) st =
     (case processResult w r st of
        Inl e \<Rightarrow> Inl e
      | Inr (Break, st') \<Rightarrow> Inr st'
      | Inr (Next, st') \<Rightarrow> processResults w rs st')"

text \<open>
  The end of a pass that was not fully blocked: count the batch, write a checkpoint every
  \<open>CHECKPOINT_INTERVAL\<close> batches, and sleep the batch delay unless the session stops.
\<close>

definition finishBatch :: "World \<Rightarrow> Session \<Rightarrow> Session" where
  "finishBatch w st2 =
     (let st3 = st2\<lparr>batchCount := batchCount st2 + 1\<rparr>;
          st4 = (if batchCount st3 mod CHECKPOINT_INTERVAL = 0
                 then saveCheckpoint w (lastProcessedPage' st3) st3 else st3)
      in if BATCH_DELAY_MS w > 0 \<and> \<not> shouldStop st4
         then st4\<lparr>sleeps := sleeps st4 @ [BATCH_DELAY_MS w]\<rparr> else st4)"

text \<open>
  The body of the batch loop from \<open>batchResults.sort\<close> on. Its argument is the array of
  results as \<open>Promise.all\<close> delivered it. On a fully blocked batch below the limit it
  steps \<open>start\<close> back, so that the loop's own increment leaves it where it was.
\<close>

definition aggregate :: "World \<Rightarrow> BatchResult list \<Rightarrow> Session \<Rightarrow> Thrown + Flow \<times> Session" where
  "aggregate w delivered st =
     (let batchResults = sort_key pageNumber delivered;
          blockedInBatch = length (filter blocked batchResults) in
      if blockedInBatch = length batchResults then
        let st1 = st\<lparr>blockedCount := blockedCount st + 1\<rparr> in
        if blockedCount st1 \<ge> MAX_BLOCKED_BEFORE_STOP
        then Inr (Break, st1\<lparr>shouldStop := True\<rparr>)
        else Inr (Next, st1\<lparr>sleeps := sleeps st1 @ [BLOCKED_BACKOFF_MS],
                              start := start st1 - int CONCURRENCY\<rparr>)
      else
        let st1 = (if blockedInBatch = 0 then st\<lparr>blockedCount := 0\<rparr> else st) in
        case processResults w batchResults st1 of
          Inl e \<Rightarrow> Inl e
        | Inr st2 \<Rightarrow> Inr (Next, finishBatch w st2))"

text \<open>The pages of the batch that starts at \<open>start\<close>.\<close>

definition batchPages :: "int \<Rightarrow> int list" where
  "batchPages s =
     filter (\<lambda>pageNumber. pageNumber \<le> MAX_PAGE) (map (\<lambda>index. s + int index) [0..<CONCURRENCY])"

text \<open>What the callback of \<open>batchPages.map\<close> makes of the fetcher's answer.\<close>

definition toBatchResult :: "World \<Rightarrow> int \<Rightarrow> FetchResult \<Rightarrow> BatchResult" where
  "toBatchResult w p r =
     (case r of
        Ok html \<Rightarrow> \<lparr>pageNumber = p, hrefs = matchHrefs w html, blocked = False\<rparr>
      | _ \<Rightarrow> \<lparr>pageNumber = p, hrefs = [], blocked = (r = Blocked)\<rparr>)"

definition fetchPage :: "World \<Rightarrow> nat \<Rightarrow> int \<Rightarrow> FetchResult" where
  "fetchPage w round p = result (fetchWithRetry (network w round (formatPageUrl p)) MAX_RETRIES)"

text \<open>
  One pass through the body of the batch loop: dispatch the batch, await all its results
  (\<open>Promise.all\<close> delivers them in the order of \<open>batchPages\<close>), aggregate.
\<close>

definition loopBody :: "World \<Rightarrow> Session \<Rightarrow> Thrown + Flow \<times> Session" where
  "loopBody w st =
     (let pages = batchPages (start st);
          round = length (dispatched st);
          delivered = map (\<lambda>p. toBatchResult w p (fetchPage w round p)) pages
      in aggregate w delivered (st\<lparr>dispatched := dispatched st @ [pages]\<rparr>))"

text \<open>The link store of a session: the list holds each link once, the set is its set.\<close>

definition storeInvariant :: "Session \<Rightarrow> bool" where
  "storeInvariant st =
     (distinct (allLinks st) \<and> uniqueLinks st = set (allLinks st) \<and>
      list_all linkLine (allLinks st))"

text \<open>
  A world in which every resolved link is a link line, and a session all of whose
  checkpoints hold the text of a list of distinct link lines, counted right.
\<close>

definition resolvesToLinkLines :: "World \<Rightarrow> bool" where
  "resolvesToLinkLines w = (\<forall>href u. toAbsolute w href = Some u \<longrightarrow> linkLine u)"

definition checkpointOk :: "ProgressState \<times> string \<Rightarrow> bool" where
  "checkpointOk c =
     (\<exists>links. snd c = writeLinks links \<and> distinct links \<and> list_all linkLine links \<and>
              totalLinksFound (fst c) = length links)"

definition sessionOk :: "Session \<Rightarrow> bool" where
  "sessionOk st = (storeInvariant st \<and> list_all checkpointOk (saved st))"

text \<open>
  The counter of consecutive empty pages after the results of a batch, by the rule alone:
  a blocked page is passed over, a page without links counts one more (and ends the batch
  at the threshold), a page with links starts the count anew.
\<close>

fun emptyRun :: "nat \<Rightarrow> BatchResult list \<Rightarrow> nat" where
  "emptyRun c [] = c"
| "emptyRun c (r # rs) =
     (if blocked r then emptyRun c rs
      else if hrefs r = [] then
        (if c + 1 \<ge> EMPTY_PAGES_BEFORE_STOP then c + 1 else emptyRun (c + 1) rs)
      else emptyRun 0 rs)"

text \<open>The parts of the session that decide whether the batch loop goes on.\<close>

lemma admit_cursor [simp]:
  "start (admit u st) = start st" "blockedCount (admit u st) = blockedCount st"
  by (simp_all add: admit_def)

lemma admitHrefs_cursor:
  "admitHrefs w hs st = Inr st' \<Longrightarrow> start st' = start st \<and> blockedCount st' = blockedCount st"
  by (induction hs arbitrary: st) (auto split: option.splits)

lemma processResult_cursor:
  "processResult w r st = Inr (flow, st') \<Longrightarrow>
   start st' = start st \<and> blockedCount st' = blockedCount st"
  by (auto simp: processResult_def Let_def split: if_splits sum.splits
           dest: admitHrefs_cursor)

lemma processResults_cursor:
  "processResults w rs st = Inr st' \<Longrightarrow> start st' = start st \<and> blockedCount st' = blockedCount st"
proof (induction rs arbitrary: st)
  case Nil
  then show ?case by simp
next
  case (Cons r rs)
  then show ?case
    by (auto split: sum.splits Flow.splits dest!: processResult_cursor)
qed

lemma saveCheckpoint_cursor [simp]:
  "start (saveCheckpoint w p st) = start st"
  "blockedCount (saveCheckpoint w p st) = blockedCount st"
  by (simp_all add: saveCheckpoint_def Let_def)

lemma finishBatch_cursor [simp]:
  "start (finishBatch w st) = start st"
  "blockedCount (finishBatch w st) = blockedCount st"
  by (simp_all add: finishBatch_def Let_def)

lemma aggregate_cursor:
  assumes "aggregate w delivered st = Inr (Next, st')"
  shows "start st' = start st \<or>
         (start st' = start st - int CONCURRENCY \<and> blockedCount st' = blockedCount st + 1 \<and>
          blockedCount st' < MAX_BLOCKED_BEFORE_STOP)"
proof (cases "length (filter blocked (sort_key pageNumber delivered)) = length (sort_key pageNumber delivered)")
  case True
  with assms show ?thesis
    by (auto simp: aggregate_def Let_def split: if_splits)
next
  case False
  with assms obtain st2 where
    "processResults w (sort_key pageNumber delivered)
       (if length (filter blocked (sort_key pageNumber delivered)) = 0
        then st\<lparr>blockedCount := 0\<rparr> else st) = Inr st2"
    and "start st' = start st2"
    by (auto simp: aggregate_def Let_def split: sum.splits)
  then show ?thesis
    by (auto dest!: processResults_cursor split: if_splits)
qed

lemma loopBody_cursor:
  assumes "loopBody w st = Inr (Next, st')"
  shows "start st' = start st \<or>
         (start st' = start st - int CONCURRENCY \<and> blockedCount st' = blockedCount st + 1 \<and>
          blockedCount st' < MAX_BLOCKED_BEFORE_STOP)"
  using aggregate_cursor [OF assms [unfolded loopBody_def Let_def]] by simp

text \<open>
  The batch loop \<open>for (let start = startPage; start <= MAX_PAGE && !shouldStop;
  start += CONCURRENCY)\<close>, entered at its test. It ends: a pass either moves \<open>start\<close>
  up, or leaves it and counts one more blocked batch, of which there are at most
  \<open>MAX_BLOCKED_BEFORE_STOP\<close>.
\<close>

function mainLoop :: "World \<Rightarrow> Session \<Rightarrow> Thrown + Session" where
  "mainLoop w st =
     (if start st \<le> MAX_PAGE \<and> \<not> shouldStop st then
        (case loopBody w st of
           Inl e \<Rightarrow> Inl e
         | Inr (Break, st') \<Rightarrow> Inr st'
         | Inr (Next, st') \<Rightarrow> mainLoop w (st'\<lparr>start := start st' + int CONCURRENCY\<rparr>))
      else Inr st)"
  by pat_completeness auto
termination
proof (relation "inv_image (less_than <*lex*> less_than)
    (\<lambda>(w, st). (nat (MAX_PAGE + 1 - start st), MAX_BLOCKED_BEFORE_STOP - blockedCount st))",
    goal_cases)
  case 1
  show ?case by (intro wf_inv_image wf_lex_prod wf_less_than)
next
  case (2 w st r flow st')
  then have "loopBody w st = Inr (Next, st')" by simp
  from loopBody_cursor [OF this] 2(1) show ?case
    by (auto simp: CONCURRENCY_def)
qed

declare mainLoop.simps [simp del]

text \<open>
  The test body: load the progress and the links, run the batch loop from the start page,
  write the final checkpoint. (The visit of the first page in the browser, with its
  confirmation buttons, is left out.)
\<close>

definition initialSession :: "string list \<Rightarrow> int \<Rightarrow> Session" where
  "initialSession existingLinks firstPage =
     \<lparr>uniqueLinks = set existingLinks,
      allLinks = existingLinks,
      pagesProcessed = 0,
      linksFoundThisRun = 0,
      newLinksThisRun = 0,
      emptyPagesInARow = 0,
      batchCount = 0,
      shouldStop = False,
      lastProcessedPage' = firstPage - 1,
      blockedCount = 0,
      start = firstPage,
      dispatched = [],
      sleeps = [],
      saved = []\<rparr>"

definition scrape :: "World \<Rightarrow> int option \<Rightarrow> ProgressFile \<Rightarrow> FileRead \<Rightarrow> Thrown + Session" where
  "scrape w envStartPage progressFile outputFile =
     (let existingProgress = readProgress progressFile in
      case readExistingLinks outputFile of
        Inl e \<Rightarrow> Inl e
      | Inr existingLinks \<Rightarrow>
          (case mainLoop w (initialSession existingLinks (startPage envStartPage existingProgress)) of
             Inl e \<Rightarrow> Inl e
           | Inr st \<Rightarrow> Inr (saveCheckpoint w (lastProcessedPage' st) st)))"

section \<open>Properties of the fetcher\<close>

lemma attempts_retryAfter [simp]: "attempts (retryAfter d run) = Suc (attempts run)"
  and result_retryAfter [simp]: "result (retryAfter d run) = result run"
  and slept_retryAfter [simp]: "slept (retryAfter d run) = d # slept run"
  and attempts_finish [simp]: "attempts (finish r) = 1"
  and result_finish [simp]: "result (finish r) = r"
  and slept_finish [simp]: "slept (finish r) = []"
  by (simp_all add: retryAfter_def finish_def)

lemma fetchLoop_past:
  "retries < int a \<Longrightarrow>
   fetchLoop request retries a = \<lparr>result = Error, attempts = 0, slept = []\<rparr>"
  by (subst fetchLoop.simps) simp

lemma fetchLoop_retry:
  "int a < retries \<Longrightarrow> blockedPath (request a) \<or> errorPath (request a) \<Longrightarrow>
   fetchLoop request retries a =
     retryAfter (backoff (request a) a) (fetchLoop request retries (Suc a))"
  by (subst fetchLoop.simps)
     (auto simp: blockedPath_def errorPath_def backoff_def split: Attempt.splits)

lemma fetchLoop_last:
  "int a = retries \<Longrightarrow> blockedPath (request a) \<or> errorPath (request a) \<Longrightarrow>
   fetchLoop request retries a = finish (if blockedPath (request a) then Blocked else Error)"
  by (subst fetchLoop.simps)
     (auto simp: blockedPath_def errorPath_def split: Attempt.splits)

lemma fetchLoop_final:
  "int a \<le> retries \<Longrightarrow> \<not> blockedPath (request a) \<Longrightarrow> \<not> errorPath (request a) \<Longrightarrow>
   fetchLoop request retries a =
     finish (case request a of
               Response status html \<Rightarrow> if ok status then Ok html else Error
             | Threw \<Rightarrow> Error)"
  by (subst fetchLoop.simps)
     (auto simp: blockedPath_def errorPath_def split: Attempt.splits)

lemma fetchLoop_cases:
  obtains (past) "retries < int a"
  | (retry) "int a < retries" "blockedPath (request a) \<or> errorPath (request a)"
  | (last) "int a = retries" "blockedPath (request a) \<or> errorPath (request a)"
  | (final) "int a \<le> retries" "\<not> blockedPath (request a)" "\<not> errorPath (request a)"
  by fastforce

lemma fetchLoop_attempts_le:
  "attempts (fetchLoop request retries a) \<le> nat (retries + 1 - int a)"
proof (induction "nat (retries + 1 - int a)" arbitrary: a)
  case 0
  then show ?case by (simp add: fetchLoop_past)
next
  case (Suc n)
  from Suc.hyps(2) have "n = nat (retries + 1 - int (Suc a))" by simp
  then have IH: "attempts (fetchLoop request retries (Suc a)) \<le> nat (retries + 1 - int (Suc a))"
    by (rule Suc.hyps(1))
  show ?case
  proof (rule fetchLoop_cases [where retries = retries and a = a and request = request])
    assume "retries < int a"
    then show ?thesis by (simp add: fetchLoop_past)
  next
    assume "int a < retries" "blockedPath (request a) \<or> errorPath (request a)"
    with IH show ?thesis by (simp add: fetchLoop_retry)
  next
    assume "int a = retries" "blockedPath (request a) \<or> errorPath (request a)"
    then show ?thesis by (simp add: fetchLoop_last)
  next
    assume "int a \<le> retries" "\<not> blockedPath (request a)" "\<not> errorPath (request a)"
    then show ?thesis by (simp add: fetchLoop_final)
  qed
qed

lemma fetchLoop_attempts_zero:
  "attempts (fetchLoop request retries a) = 0 \<longleftrightarrow> retries < int a"
  by (rule fetchLoop_cases [where retries = retries and a = a and request = request])
     (simp_all add: fetchLoop_past fetchLoop_retry fetchLoop_last fetchLoop_final)

text \<open>Every attempt but the last one was answered by a retry.\<close>

lemma fetchLoop_earlier:
  "a \<le> i \<Longrightarrow> Suc i < a + attempts (fetchLoop request retries a) \<Longrightarrow>
     blockedPath (request i) \<or> errorPath (request i)"
proof (induction "nat (retries + 1 - int a)" arbitrary: a)
  case 0
  then show ?case by (simp add: fetchLoop_past)
next
  case (Suc n)
  show ?case
  proof (rule fetchLoop_cases [where retries = retries and a = a and request = request])
    assume "retries < int a"
    with Suc.prems show ?thesis by (simp add: fetchLoop_past)
  next
    assume r: "int a < retries" "blockedPath (request a) \<or> errorPath (request a)"
    show ?thesis
    proof (cases "i = a")
      case True
      with r show ?thesis by simp
    next
      case False
      with Suc.prems r
      have "Suc a \<le> i" "Suc i < Suc a + attempts (fetchLoop request retries (Suc a))"
        by (simp_all add: fetchLoop_retry)
      moreover from Suc.hyps(2) have "n = nat (retries + 1 - int (Suc a))" by simp
      ultimately show ?thesis by (rule Suc.hyps(1) [rotated])
    qed
  next
    assume "int a = retries" "blockedPath (request a) \<or> errorPath (request a)"
    with Suc.prems show ?thesis by (simp add: fetchLoop_last)
  next
    assume "int a \<le> retries" "\<not> blockedPath (request a)" "\<not> errorPath (request a)"
    with Suc.prems show ?thesis by (simp add: fetchLoop_final)
  qed
qed

text \<open>The last attempt decides the result.\<close>

lemma fetchLoop_decided:
  "0 < attempts (fetchLoop request retries a) \<Longrightarrow>
   (let run = fetchLoop request retries a; final = request (a + attempts run - 1) in
      (blockedPath final \<longrightarrow> result run = Blocked \<and> int (a + attempts run) = retries + 1) \<and>
      (errorPath final \<longrightarrow> result run = Error \<and> int (a + attempts run) = retries + 1) \<and>
      (\<not> blockedPath final \<and> \<not> errorPath final \<longrightarrow>
         result run = (case final of
                         Response status html \<Rightarrow> if ok status then Ok html else Error
                       | Threw \<Rightarrow> Error)))"
proof (induction "nat (retries + 1 - int a)" arbitrary: a)
  case 0
  then show ?case by (simp add: fetchLoop_past)
next
  case (Suc n)
  show ?case
  proof (rule fetchLoop_cases [where retries = retries and a = a and request = request])
    assume "retries < int a"
    with Suc.prems show ?thesis by (simp add: fetchLoop_past)
  next
    assume r: "int a < retries" "blockedPath (request a) \<or> errorPath (request a)"
    from Suc.hyps(2) have n: "n = nat (retries + 1 - int (Suc a))" by simp
    from r have "0 < attempts (fetchLoop request retries (Suc a))"
      using fetchLoop_attempts_zero [of request retries "Suc a"] by simp
    from Suc.hyps(1) [OF n this] r show ?thesis
      by (simp add: fetchLoop_retry Let_def)
  next
    assume "int a = retries" "blockedPath (request a) \<or> errorPath (request a)"
    then show ?thesis
      by (auto simp add: fetchLoop_last Let_def blockedPath_def errorPath_def
               split: Attempt.splits)
  next
    assume "int a \<le> retries" "\<not> blockedPath (request a)" "\<not> errorPath (request a)"
    then show ?thesis by (simp add: fetchLoop_final Let_def)
  qed
qed

text \<open>Between two attempts the loop sleeps the delay of the rung it is on.\<close>

lemma fetchLoop_slept:
  "slept (fetchLoop request retries a) =
     map (\<lambda>i. backoff (request i) i) [a ..< a + (attempts (fetchLoop request retries a) - 1)]"
proof (induction "nat (retries + 1 - int a)" arbitrary: a)
  case 0
  then show ?case by (simp add: fetchLoop_past)
next
  case (Suc n)
  from Suc.hyps(2) have n: "n = nat (retries + 1 - int (Suc a))" by simp
  show ?case
  proof (rule fetchLoop_cases [where retries = retries and a = a and request = request])
    assume "retries < int a"
    then show ?thesis by (simp add: fetchLoop_past)
  next
    assume r: "int a < retries" "blockedPath (request a) \<or> errorPath (request a)"
    then have "0 < attempts (fetchLoop request retries (Suc a))"
      using fetchLoop_attempts_zero [of request retries "Suc a"] by simp
    with Suc.hyps(1) [OF n] r show ?thesis
      by (simp add: fetchLoop_retry upt_conv_Cons)
  next
    assume "int a = retries" "blockedPath (request a) \<or> errorPath (request a)"
    then show ?thesis by (simp add: fetchLoop_last)
  next
    assume "int a \<le> retries" "\<not> blockedPath (request a)" "\<not> errorPath (request a)"
    then show ?thesis by (simp add: fetchLoop_final)
  qed
qed

lemma fetchLoop_result_cases:
  "(\<exists>html. result (fetchLoop request retries a) = Ok html) \<or>
   result (fetchLoop request retries a) = Blocked \<or>
   result (fetchLoop request retries a) = Error"
proof (induction "nat (retries + 1 - int a)" arbitrary: a)
  case 0
  then show ?case by (simp add: fetchLoop_past)
next
  case (Suc n)
  from Suc.hyps(2) have n: "n = nat (retries + 1 - int (Suc a))" by simp
  show ?case
  proof (rule fetchLoop_cases [where retries = retries and a = a and request = request])
    assume "retries < int a"
    then show ?thesis by (simp add: fetchLoop_past)
  next
    assume "int a < retries" "blockedPath (request a) \<or> errorPath (request a)"
    with Suc.hyps(1) [OF n] show ?thesis by (simp add: fetchLoop_retry)
  next
    assume "int a = retries" "blockedPath (request a) \<or> errorPath (request a)"
    then show ?thesis by (simp add: fetchLoop_last)
  next
    assume "int a \<le> retries" "\<not> blockedPath (request a)" "\<not> errorPath (request a)"
    then show ?thesis by (simp add: fetchLoop_final split: Attempt.splits)
  qed
qed

text \<open>
  C3. For every sequence of per-attempt outcomes and every retry budget,
  \<open>fetchWithRetry\<close> calls \<open>request.get\<close> at most \<open>retries + 1\<close> times (not at all
  when the budget is negative); every attempt before the last one was on the blocked or on
  the error path, and was followed by the delay of its rung; and the last attempt decides
  the result: on the blocked path the budget is exhausted and the result is \<open>blocked\<close>,
  on the error path the budget is exhausted and the result is \<open>error\<close>, a clean OK
  response gives \<open>ok\<close> with its body at once, and any other response gives \<open>error\<close>.
\<close>

theorem fetchWithRetry_ladder:
  "(let run = fetchWithRetry request retries in
      attempts run \<le> nat (retries + 1) \<and>
      (attempts run = 0 \<longleftrightarrow> retries < 0) \<and>
      (attempts run = 0 \<longrightarrow> result run = Error) \<and>
      (\<forall>i. Suc i < attempts run \<longrightarrow> blockedPath (request i) \<or> errorPath (request i)) \<and>
      slept run = map (\<lambda>i. backoff (request i) i) [0 ..< attempts run - 1] \<and>
      (0 < attempts run \<longrightarrow>
         (let final = request (attempts run - 1) in
            (blockedPath final \<longrightarrow>
               result run = Blocked \<and> int (attempts run) = retries + 1) \<and>
            (errorPath final \<longrightarrow>
               result run = Error \<and> int (attempts run) = retries + 1) \<and>
            (okResponse final \<longrightarrow>
               (\<exists>status html. final = Response status html \<and> result run = Ok html)) \<and>
            (\<not> blockedPath final \<and> \<not> errorPath final \<and> \<not> okResponse final \<longrightarrow>
               result run = Error))))"
proof -
  let ?run = "fetchLoop request retries 0"
  have le: "attempts ?run \<le> nat (retries + 1)"
    using fetchLoop_attempts_le [of request retries 0] by simp
  have zero: "attempts ?run = 0 \<longleftrightarrow> retries < 0"
    using fetchLoop_attempts_zero [of request retries 0] by simp
  have none: "attempts ?run = 0 \<longrightarrow> result ?run = Error"
    using zero by (auto simp: fetchLoop_past)
  have earlier: "\<forall>i. Suc i < attempts ?run \<longrightarrow> blockedPath (request i) \<or> errorPath (request i)"
    using fetchLoop_earlier [of 0 _ request retries] by simp
  have decided: "0 < attempts ?run \<longrightarrow>
         (let final = request (attempts ?run - 1) in
            (blockedPath final \<longrightarrow>
               result ?run = Blocked \<and> int (attempts ?run) = retries + 1) \<and>
            (errorPath final \<longrightarrow>
               result ?run = Error \<and> int (attempts ?run) = retries + 1) \<and>
            (okResponse final \<longrightarrow>
               (\<exists>status html. final = Response status html \<and> result ?run = Ok html)) \<and>
            (\<not> blockedPath final \<and> \<not> errorPath final \<and> \<not> okResponse final \<longrightarrow>
               result ?run = Error))"
  proof
    assume "0 < attempts ?run"
    from fetchLoop_decided [OF this] show "let final = request (attempts ?run - 1) in
            (blockedPath final \<longrightarrow>
               result ?run = Blocked \<and> int (attempts ?run) = retries + 1) \<and>
            (errorPath final \<longrightarrow>
               result ?run = Error \<and> int (attempts ?run) = retries + 1) \<and>
            (okResponse final \<longrightarrow>
               (\<exists>status html. final = Response status html \<and> result ?run = Ok html)) \<and>
            (\<not> blockedPath final \<and> \<not> errorPath final \<and> \<not> okResponse final \<longrightarrow>
               result ?run = Error)"
      by (auto simp: Let_def okResponse_def blockedPath_def errorPath_def
               split: Attempt.splits)
  qed
  have delays: "slept ?run = map (\<lambda>i. backoff (request i) i) [0 ..< attempts ?run - 1]"
    using fetchLoop_slept [of request retries 0] by simp
  from le zero none earlier delays decided show ?thesis
    unfolding fetchWithRetry_def Let_def by blast
qed

text \<open>
  The ladder at work: two 503 answers, then a block page served with status 200, then a
  clean page; with a budget of 5 retries the fourth attempt returns its body.
\<close>

theorem fetchWithRetry_ladder_witness:
  "(let request = (\<lambda>i. if i < 2 then Response 503 ''busy''
                        else if i = 2 then Response 200 ''Access Denied''
                        else Response 200 ''page'');
        run = fetchWithRetry request 5 in
      attempts run = 4 \<and> attempts run \<le> nat (5 + 1) \<and> 0 < attempts run \<and>
      errorPath (request 0) \<and> errorPath (request 1) \<and> blockedPath (request 2) \<and>
      okResponse (request (attempts run - 1)) \<and> result run = Ok ''page'' \<and>
      slept run = [2000, 4000, 90000])"
  using fetchWithRetry_ladder [of "\<lambda>i. if i < 2 then Response 503 ''busy''
                        else if i = 2 then Response 200 ''Access Denied''
                        else Response 200 ''page''" 5]
  by (simp add: fetchWithRetry_def fetchLoop.simps retryAfter_def finish_def
        isBlockedResponse_def ok_def errorPath_def blockedPath_def okResponse_def
        BLOCKED_BACKOFF_MS_def RETRY_BASE_DELAY_MS_def Let_def)

text \<open>
  C10. \<open>fetchWithRetry\<close> always returns, and what it returns is \<open>ok\<close>, \<open>blocked\<close> or
  \<open>error\<close>: never the \<open>empty\<close> variant of \<open>FetchResult\<close>. A thrown \<open>request.get\<close> is
  caught in the loop and ends as a retry or as \<open>error\<close>.
\<close>

theorem fetchWithRetry_never_empty:
  "result (fetchWithRetry request retries) \<noteq> Empty \<and>
   ((\<exists>html. result (fetchWithRetry request retries) = Ok html) \<or>
    result (fetchWithRetry request retries) = Blocked \<or>
    result (fetchWithRetry request retries) = Error)"
  using fetchLoop_result_cases [of request retries 0]
  by (auto simp: fetchWithRetry_def)

theorem fetchWithRetry_never_empty_witness:
  "result (fetchWithRetry (\<lambda>i. Threw) 5) \<noteq> Empty \<and>
   result (fetchWithRetry (\<lambda>i. Threw) 5) = Error \<and>
   attempts (fetchWithRetry (\<lambda>i. Threw) 5) = 6"
  using fetchWithRetry_never_empty [of "\<lambda>i. Threw" 5]
  by (simp add: fetchWithRetry_def fetchLoop.simps retryAfter_def finish_def)
section \<open>Properties of the page URLs\<close>

lemma digit_inj: "a < 10 \<Longrightarrow> b < 10 \<Longrightarrow> digit a = digit b \<Longrightarrow> a = b"
proof -
  assume "a < 10" "b < 10" "digit a = digit b"
  moreover have "distinct ''0123456789''" by simp
  ultimately show ?thesis
    unfolding digit_def by (simp add: nth_eq_iff_index_eq del: distinct.simps)
qed

lemma natToString_unfold:
  "natToString n = (if n < 10 then [] else natToString (n div 10)) @ [digit (n mod 10)]"
  by (subst natToString.simps) simp

lemma natToString_nonempty: "natToString n \<noteq> []"
  by (subst natToString.simps) simp

lemma natToString_inj: "natToString n = natToString m \<Longrightarrow> n = m"
proof (induction n arbitrary: m rule: natToString.induct)
  case (1 n)
  from "1.prems"
  have "(if n < 10 then [] else natToString (n div 10)) @ [digit (n mod 10)]
      = (if m < 10 then [] else natToString (m div 10)) @ [digit (m mod 10)]"
    using natToString_unfold [of n] natToString_unfold [of m] by simp
  then have d: "digit (n mod 10) = digit (m mod 10)"
    and r: "(if n < 10 then [] else natToString (n div 10))
          = (if m < 10 then [] else natToString (m div 10))"
    by simp_all
  from d have md: "n mod 10 = m mod 10" by (rule digit_inj [rotated 2]) simp_all
  from r have dv: "n div 10 = m div 10"
    using "1.IH" [of "m div 10"] natToString_nonempty [of "n div 10"]
      natToString_nonempty [of "m div 10"]
    by (auto split: if_splits)
  from md dv show ?case by (metis div_mult_mod_eq)
qed

lemma natToString_no_minus: "CHR ''-'' \<notin> set (natToString n)"
proof (induction n rule: natToString.induct)
  case (1 n)
  have "digit (n mod 10) \<noteq> CHR ''-''"
  proof -
    have "n mod 10 < 10" by simp
    then have "digit (n mod 10) \<in> set ''0123456789''"
      unfolding digit_def by (intro nth_mem) simp
    then show ?thesis by auto
  qed
  with 1 show ?case by (subst natToString_unfold) auto
qed

lemma numberToString_nonempty: "numberToString n \<noteq> []"
  by (simp add: numberToString_def natToString_nonempty)

lemma numberToString_inj: "numberToString n = numberToString m \<Longrightarrow> n = m"
proof -
  assume eq: "numberToString n = numberToString m"
  have hd: "\<And>k. hd (natToString k) \<noteq> CHR ''-''"
    using natToString_no_minus natToString_nonempty by (metis hd_in_set)
  show ?thesis
  proof (cases "n < 0"; cases "m < 0")
    assume "n < 0" "m < 0"
    with eq have "nat (- n) = nat (- m)"
      by (auto simp: numberToString_def dest: natToString_inj)
    with \<open>n < 0\<close> \<open>m < 0\<close> show ?thesis by simp
  next
    assume "n < 0" "\<not> m < 0"
    with eq hd [of "nat m"] show ?thesis
      by (metis append_Cons append_Nil list.sel(1) numberToString_def)
  next
    assume "\<not> n < 0" "m < 0"
    with eq hd [of "nat n"] show ?thesis
      by (metis append_Cons append_Nil list.sel(1) numberToString_def)
  next
    assume "\<not> n < 0" "\<not> m < 0"
    with eq have "nat n = nat m"
      by (auto simp: numberToString_def dest: natToString_inj)
    with \<open>\<not> n < 0\<close> \<open>\<not> m < 0\<close> show ?thesis by simp
  qed
qed

lemma batchPages_single: "batchPages s = (if s \<le> MAX_PAGE then [s] else [])"
  by (simp add: batchPages_def CONCURRENCY_def)

text \<open>
  C6, as the code has it. For every page number \<open>N\<close> that a JavaScript number holds
  exactly, \<open>formatPageUrl\<close> appends the query parameter \<open>?page=N\<close> to the base listing
  URL, also for \<open>N = 1\<close>: it never yields the bare listing URL, and distinct page numbers
  get distinct URLs. The \<open>scrapePage\<close> of the other two scrapers requests the bare
  listing URL for \<open>N = 1\<close> and the same URL as \<open>formatPageUrl\<close> for every other page.
\<close>

theorem page_url_parameter:
  assumes "\<bar>N\<bar> \<le> 2 ^ 53" and "\<bar>M\<bar> \<le> 2 ^ 53"
  shows "formatPageUrl N = BASE_URL @ ''?page='' @ numberToString N \<and>
         formatPageUrl N \<noteq> BASE_URL \<and>
         (formatPageUrl N = formatPageUrl M \<longleftrightarrow> N = M) \<and>
         scrapePage_url 1 = BASE_URL \<and>
         (N \<noteq> 1 \<longrightarrow> scrapePage_url N = formatPageUrl N)"
proof -
  have "formatPageUrl N = formatPageUrl M \<longleftrightarrow> N = M"
    by (auto simp: formatPageUrl_def dest: numberToString_inj)
  then show ?thesis
    by (simp add: formatPageUrl_def scrapePage_url_def)
qed

theorem page_url_parameter_witness:
  "\<bar>2 :: int\<bar> \<le> 2 ^ 53 \<and> \<bar>3 :: int\<bar> \<le> 2 ^ 53 \<and>
   formatPageUrl 2 = ''https://www.justice.gov/epstein/doj-disclosures/data-set-9-files?page=2'' \<and>
   formatPageUrl 2 \<noteq> BASE_URL \<and>
   formatPageUrl 2 \<noteq> formatPageUrl 3 \<and>
   scrapePage_url 1 = BASE_URL \<and>
   scrapePage_url 2 = formatPageUrl 2"
proof -
  have two: "\<bar>2 :: int\<bar> \<le> 2 ^ 53" and three: "\<bar>3 :: int\<bar> \<le> 2 ^ 53" by simp_all
  from page_url_parameter [OF two three] two three show ?thesis
    by (simp add: formatPageUrl_def scrapePage_url_def BASE_URL_def numberToString_def
          natToString.simps digit_def)
qed

text \<open>
  The claim as stated fails for \<open>formatPageUrl\<close>: page 1 is requested with its parameter,
  and the first page of a fresh session is page 0, also with its parameter.
\<close>

theorem formatPageUrl_keeps_parameter_for_page_one:
  "formatPageUrl 1 = ''https://www.justice.gov/epstein/doj-disclosures/data-set-9-files?page=1'' \<and>
   formatPageUrl 1 \<noteq> BASE_URL \<and>
   formatPageUrl (startPage None None)
     = ''https://www.justice.gov/epstein/doj-disclosures/data-set-9-files?page=0''"
  by (simp add: formatPageUrl_def BASE_URL_def numberToString_def natToString.simps digit_def
        startPage_def)

section \<open>Properties of the link file and of admission\<close>

lemma trimmed_trim_id: "trimmed s \<Longrightarrow> trim s = s"
proof -
  assume t: "trimmed s"
  show ?thesis
  proof (cases "s = []")
    case True
    then show ?thesis by (simp add: trim_def)
  next
    case False
    with t have h: "\<not> isWhiteSpace (hd s)" and l: "\<not> isWhiteSpace (last s)"
      by (simp_all add: trimmed_def)
    from h have "dropWhile isWhiteSpace s = s" by (simp add: dropWhile_eq_self_iff)
    moreover from l False have "dropWhile isWhiteSpace (rev s) = rev s"
      by (simp add: dropWhile_eq_self_iff hd_rev)
    ultimately show ?thesis by (simp add: trim_def)
  qed
qed

lemma trimmed_trim: "trimmed (trim s)"
proof -
  let ?d = "dropWhile isWhiteSpace s"
  let ?e = "dropWhile isWhiteSpace (rev ?d)"
  show ?thesis
  proof (cases "?d = []")
    case True
    have "trim s = []" unfolding trim_def True by simp
    then show ?thesis by (simp add: trimmed_def)
  next
    case False
    then have hd: "\<not> isWhiteSpace (hd ?d)" by (rule hd_dropWhile)
    with False have lastrev: "\<not> isWhiteSpace (last (rev ?d))" by (simp add: last_rev)
    have mem: "last (rev ?d) \<in> set (rev ?d)" using False by (intro last_in_set) simp
    with lastrev have ne: "?e \<noteq> []" by auto
    then have he: "\<not> isWhiteSpace (hd ?e)" by (rule hd_dropWhile)
    have "last ?e = last (rev ?d)"
      using mem lastrev by (rule dropWhile_last)
    with hd have le: "\<not> isWhiteSpace (last ?e)" by (simp add: last_rev)
    from ne he le show ?thesis
      by (simp add: trim_def trimmed_def hd_rev last_rev)
  qed
qed

lemma trim_idem: "trim (trim s) = trim s"
  by (rule trimmed_trim_id) (rule trimmed_trim)

lemma set_trim: "set (trim s) \<subseteq> set s"
  by (auto simp: trim_def dest!: set_dropWhileD)

lemma split_lines_nonempty: "split_lines s \<noteq> []"
  by (induction s) (auto split: list.splits)

lemma split_lines_no_newline: "l \<in> set (split_lines s) \<Longrightarrow> CHR 0x0A \<notin> set l"
proof (induction s arbitrary: l)
  case Nil
  then show ?case by simp
next
  case (Cons c cs)
  then show ?case
    by (cases "split_lines cs") (auto split: if_splits simp: split_lines_nonempty)
qed

lemma split_lines_line:
  "CHR 0x0A \<notin> set l \<Longrightarrow> split_lines (l @ CHR 0x0A # rest) = l # split_lines rest"
  by (induction l) auto

lemma split_lines_join:
  "\<forall>l \<in> set links. CHR 0x0A \<notin> set l \<Longrightarrow> links \<noteq> [] \<Longrightarrow>
   split_lines (join [CHR 0x0A] links @ [CHR 0x0A]) = links @ [[]]"
proof (induction "[CHR 0x0A]" links rule: join.induct)
  case 1
  then show ?case by simp
next
  case (2 x)
  then show ?case using split_lines_line [of x "[]"] by simp
next
  case (3 x y ys)
  then show ?case using split_lines_line [of x "join [CHR 0x0A] (y # ys) @ [CHR 0x0A]"] by simp
qed

lemma dedupe_distinct_id:
  "distinct (acc @ ls) \<Longrightarrow> dedupe (set acc) acc ls = acc @ ls"
proof (induction ls arbitrary: acc)
  case Nil
  then show ?case by simp
next
  case (Cons l ls)
  then have "distinct ((acc @ [l]) @ ls)" by auto
  then have "dedupe (set (acc @ [l])) (acc @ [l]) ls = (acc @ [l]) @ ls" by (rule Cons.IH)
  moreover from Cons.prems have "l \<notin> set acc" by auto
  ultimately show ?case by simp
qed

lemma dedupe_props:
  "distinct acc \<Longrightarrow>
   distinct (dedupe (set acc) acc ls) \<and> set (dedupe (set acc) acc ls) = set acc \<union> set ls"
proof (induction ls arbitrary: acc)
  case Nil
  then show ?case by simp
next
  case (Cons l ls)
  show ?case
  proof (cases "l \<in> set acc")
    case True
    with Cons.IH [OF Cons.prems] show ?thesis by auto
  next
    case False
    with Cons.prems have "distinct (acc @ [l])" by simp
    from Cons.IH [OF this] False show ?thesis by auto
  qed
qed

lemma readExistingLinks_clean:
  assumes "readExistingLinks file = Inr links"
  shows "distinct links \<and> (\<forall>l \<in> set links. linkLine l)"
proof (cases "file")
  case ENOENT
  with assms show ?thesis by (simp add: readExistingLinks_def)
next
  case ReadFailed
  with assms show ?thesis by (simp add: readExistingLinks_def)
next
  case (Contents contents)
  let ?ls = "filter (\<lambda>line. line \<noteq> []) (map trim (split_lines contents))"
  from Contents assms have links: "links = dedupe (set []) [] ?ls"
    by (simp add: readExistingLinks_def)
  have "distinct links \<and> set links = set [] \<union> set ?ls"
    unfolding links by (rule dedupe_props) simp
  moreover have "linkLine l" if "l \<in> set ?ls" for l
  proof -
    from that obtain r where r: "r \<in> set (split_lines contents)" and l: "l = trim r" and "l \<noteq> []"
      by auto
    from r have "CHR 0x0A \<notin> set r" by (rule split_lines_no_newline)
    with l set_trim [of r] have "CHR 0x0A \<notin> set l" by auto
    with l \<open>l \<noteq> []\<close> show ?thesis by (simp add: linkLine_def trim_idem)
  qed
  ultimately show ?thesis by auto
qed

lemma writeLinks_split:
  assumes "\<forall>l \<in> set links. linkLine l"
  shows "split_lines (writeLinks links) = links @ [[]]"
proof (cases "links = []")
  case True
  then show ?thesis by (simp add: writeLinks_def)
next
  case False
  from assms have "\<forall>l \<in> set links. CHR 0x0A \<notin> set l" by (simp add: linkLine_def)
  from split_lines_join [OF this False] False
  show ?thesis by (simp add: writeLinks_def)
qed

lemma writeLinks_lines:
  assumes "\<forall>l \<in> set links. linkLine l"
  shows "filter (\<lambda>line. line \<noteq> []) (split_lines (writeLinks links)) = links"
    and "filter (\<lambda>line. line \<noteq> []) (map trim (split_lines (writeLinks links))) = links"
proof -
  from assms have "map trim links = links" by (simp add: linkLine_def map_idI)
  moreover from assms have "filter (\<lambda>line. line \<noteq> []) links = links"
    by (simp add: linkLine_def)
  ultimately show "filter (\<lambda>line. line \<noteq> []) (split_lines (writeLinks links)) = links"
    and "filter (\<lambda>line. line \<noteq> []) (map trim (split_lines (writeLinks links))) = links"
    by (simp_all add: writeLinks_split [OF assms] trim_def)
qed

lemma writeLinks_roundtrip:
  assumes "distinct links" and "\<forall>l \<in> set links. linkLine l"
  shows "readExistingLinks (Contents (writeLinks links)) = Inr links"
  using dedupe_distinct_id [of "[]" links] assms
  by (simp add: readExistingLinks_def writeLinks_lines)

lemma storeInvariant_initial:
  "readExistingLinks file = Inr existing \<Longrightarrow> storeInvariant (initialSession existing firstPage)"
  by (auto simp: storeInvariant_def initialSession_def list_all_iff dest: readExistingLinks_clean)

lemma storeInvariant_admit:
  "storeInvariant st \<Longrightarrow> linkLine u \<Longrightarrow> storeInvariant (admit u st)"
  by (auto simp: storeInvariant_def admit_def)

lemma storeInvariant_fold_admit:
  "storeInvariant st \<Longrightarrow> list_all linkLine us \<Longrightarrow> storeInvariant (fold admit us st)"
  by (induction us arbitrary: st) (auto simp: storeInvariant_admit)

lemma admit_present: "u \<in> uniqueLinks st \<Longrightarrow> admit u st = st"
  by (simp add: admit_def)

lemma admit_member: "u \<in> uniqueLinks (admit u st)"
  by (simp add: admit_def)

lemma admit_card:
  "storeInvariant st \<Longrightarrow>
   card (uniqueLinks (admit u st)) = card (uniqueLinks st) + (if u \<in> uniqueLinks st then 0 else 1)"
  by (auto simp: admit_def storeInvariant_def)

text \<open>
  C7. Take the links loaded from any link file, then admit any sequence of links, then
  admit a link \<open>u\<close> twice. If \<open>u\<close> was present, the first admission changes nothing: not
  the session, hence not the text a checkpoint would write. The second admission never
  changes anything, and over both the number of links grows by one exactly when \<open>u\<close> was
  new. The list of links holds no link twice and is the set of links; the text written for
  it holds each link on a line of its own and nothing else; and loading that text gives
  the list back. Links are strings as \<open>URL.prototype.toString\<close> returns them
  (\<open>linkLine\<close>).
\<close>

theorem linkStore_admission_roundtrip:
  assumes "readExistingLinks file = Inr existing" and "list_all linkLine us" and "linkLine u"
  shows "(let st = fold admit us (initialSession existing firstPage);
              st1 = admit u st; st2 = admit u st1 in
            (u \<in> uniqueLinks st \<longrightarrow>
               st1 = st \<and> writeLinks (allLinks st1) = writeLinks (allLinks st)) \<and>
            st2 = st1 \<and>
            card (uniqueLinks st2) = card (uniqueLinks st) + (if u \<in> uniqueLinks st then 0 else 1) \<and>
            distinct (allLinks st2) \<and>
            set (allLinks st2) = uniqueLinks st2 \<and>
            filter (\<lambda>line. line \<noteq> []) (split_lines (writeLinks (allLinks st2))) = allLinks st2 \<and>
            readExistingLinks (Contents (writeLinks (allLinks st2))) = Inr (allLinks st2))"
proof -
  let ?st = "fold admit us (initialSession existing firstPage)"
  let ?st1 = "admit u ?st"
  have inv: "storeInvariant ?st"
    using assms(1,2) by (intro storeInvariant_fold_admit storeInvariant_initial)
  then have inv1: "storeInvariant ?st1" using assms(3) by (rule storeInvariant_admit)
  have twice: "admit u ?st1 = ?st1" by (rule admit_present) (rule admit_member)
  have present: "u \<in> uniqueLinks ?st \<longrightarrow> ?st1 = ?st \<and> writeLinks (allLinks ?st1) = writeLinks (allLinks ?st)"
    by (simp add: admit_present)
  have card: "card (uniqueLinks ?st1) = card (uniqueLinks ?st) + (if u \<in> uniqueLinks ?st then 0 else 1)"
    using inv by (rule admit_card)
  from inv1 have d: "distinct (allLinks ?st1)" and s: "set (allLinks ?st1) = uniqueLinks ?st1"
    and c: "\<forall>l \<in> set (allLinks ?st1). linkLine l"
    by (simp_all add: storeInvariant_def list_all_iff)
  from c have lines: "filter (\<lambda>line. line \<noteq> []) (split_lines (writeLinks (allLinks ?st1))) = allLinks ?st1"
    by (rule writeLinks_lines)
  have rt: "readExistingLinks (Contents (writeLinks (allLinks ?st1))) = Inr (allLinks ?st1)"
    using d c by (rule writeLinks_roundtrip)
  from present twice card d s lines rt show ?thesis
    unfolding Let_def by simp
qed

theorem linkStore_admission_roundtrip_witness:
  "readExistingLinks
     (Contents (''https://a/x.pdf'' @ [CHR 0x0A, CHR 0x0A] @ ''  https://a/y.pdf '' @ [CHR 0x0A]
                @ ''https://a/x.pdf'' @ [CHR 0x0A]))
     = Inr [''https://a/x.pdf'', ''https://a/y.pdf''] \<and>
   list_all linkLine [''https://a/z.pdf'', ''https://a/x.pdf''] \<and>
   linkLine ''https://a/w.pdf'' \<and>
   allLinks (fold admit [''https://a/z.pdf'', ''https://a/x.pdf'']
               (initialSession [''https://a/x.pdf'', ''https://a/y.pdf''] 0))
     = [''https://a/x.pdf'', ''https://a/y.pdf'', ''https://a/z.pdf''] \<and>
   allLinks (admit ''https://a/w.pdf'' (admit ''https://a/w.pdf''
               (fold admit [''https://a/z.pdf'', ''https://a/x.pdf'']
                  (initialSession [''https://a/x.pdf'', ''https://a/y.pdf''] 0))))
     = [''https://a/x.pdf'', ''https://a/y.pdf'', ''https://a/z.pdf'', ''https://a/w.pdf''] \<and>
   card (uniqueLinks (admit ''https://a/w.pdf'' (admit ''https://a/w.pdf''
               (fold admit [''https://a/z.pdf'', ''https://a/x.pdf'']
                  (initialSession [''https://a/x.pdf'', ''https://a/y.pdf''] 0)))))
     = card (uniqueLinks (fold admit [''https://a/z.pdf'', ''https://a/x.pdf'']
                  (initialSession [''https://a/x.pdf'', ''https://a/y.pdf''] 0))) + 1 \<and>
   readExistingLinks (Contents (writeLinks (allLinks (admit ''https://a/w.pdf''
               (admit ''https://a/w.pdf''
                  (fold admit [''https://a/z.pdf'', ''https://a/x.pdf'']
                     (initialSession [''https://a/x.pdf'', ''https://a/y.pdf''] 0)))))))
     = Inr (allLinks (admit ''https://a/w.pdf'' (admit ''https://a/w.pdf''
               (fold admit [''https://a/z.pdf'', ''https://a/x.pdf'']
                  (initialSession [''https://a/x.pdf'', ''https://a/y.pdf''] 0)))))"
proof -
  let ?st = "fold admit [''https://a/z.pdf'', ''https://a/x.pdf'']
               (initialSession [''https://a/x.pdf'', ''https://a/y.pdf''] 0)"
  let ?st2 = "admit ''https://a/w.pdf'' (admit ''https://a/w.pdf'' ?st)"
  have load: "readExistingLinks
     (Contents (''https://a/x.pdf'' @ [CHR 0x0A, CHR 0x0A] @ ''  https://a/y.pdf '' @ [CHR 0x0A]
                @ ''https://a/x.pdf'' @ [CHR 0x0A]))
     = Inr [''https://a/x.pdf'', ''https://a/y.pdf'']"
    by (simp add: readExistingLinks_def trim_def isWhiteSpace_def)
  have new: "list_all linkLine [''https://a/z.pdf'', ''https://a/x.pdf'']"
    by (simp add: linkLine_def trim_def isWhiteSpace_def)
  have one: "linkLine ''https://a/w.pdf''"
    by (simp add: linkLine_def trim_def isWhiteSpace_def)
  have links: "allLinks ?st = [''https://a/x.pdf'', ''https://a/y.pdf'', ''https://a/z.pdf'']"
    by (simp add: admit_def initialSession_def)
  have unique: "''https://a/w.pdf'' \<notin> uniqueLinks ?st"
    by (simp add: admit_def initialSession_def)
  have twice: "allLinks ?st2
      = [''https://a/x.pdf'', ''https://a/y.pdf'', ''https://a/z.pdf'', ''https://a/w.pdf'']"
    by (simp add: admit_def initialSession_def)
  note law = linkStore_admission_roundtrip [OF load new one, of 0, unfolded Let_def]
  from law have "card (uniqueLinks ?st2)
      = card (uniqueLinks ?st) + (if ''https://a/w.pdf'' \<in> uniqueLinks ?st then 0 else 1)"
    by (elim conjE)
  with unique have card: "card (uniqueLinks ?st2) = card (uniqueLinks ?st) + 1"
    by (simp only: if_False)
  from law have reload: "readExistingLinks (Contents (writeLinks (allLinks ?st2))) = Inr (allLinks ?st2)"
    by (elim conjE)
  from load new one links twice card reload show ?thesis
    by (intro conjI)
qed

section \<open>Properties of the batch scheduler\<close>

lemma processResults_skips_blocked:
  "processResults w rs st = processResults w (filter (\<lambda>r. \<not> blocked r) rs) st"
proof (induction rs arbitrary: st)
  case Nil
  show ?case by simp
next
  case (Cons r rs)
  show ?case
  proof (cases "blocked r")
    case True
    then have "processResult w r st = Inr (Next, st)" by (simp add: processResult_def)
    with True Cons.IH show ?thesis by simp
  next
    case False
    with Cons.IH show ?thesis by (simp split: sum.splits Flow.splits prod.splits)
  qed
qed

lemma admitHrefs_counter:
  "admitHrefs w hs st = Inr st' \<Longrightarrow> emptyPagesInARow st' = emptyPagesInARow st"
  by (induction hs arbitrary: st) (auto simp: admit_def split: option.splits if_splits)

lemma admitHrefs_throws:
  "admitHrefs w hs st = Inl e \<Longrightarrow> e = InvalidURL \<and> (\<exists>h \<in> set hs. toAbsolute w h = None)"
  by (induction hs arbitrary: st) (auto split: option.splits)

lemma admitHrefs_returns:
  "(\<exists>st'. admitHrefs w hs st = Inr st') \<longleftrightarrow> (\<forall>h \<in> set hs. toAbsolute w h \<noteq> None)"
  by (induction hs arbitrary: st) (auto split: option.splits)

lemma blockedInBatch_sorted:
  "length (filter blocked (sort_key pageNumber delivered)) = length (filter blocked delivered)"
proof -
  have "mset (filter blocked (sort_key pageNumber delivered)) = mset (filter blocked delivered)"
    by (simp add: mset_filter)
  then show ?thesis by (rule mset_eq_length)
qed

lemma aggregate_all_blocked_counter:
  assumes "list_all blocked delivered" and "aggregate w delivered st = Inr (flow, st')"
  shows "emptyPagesInARow st' = emptyPagesInARow st"
proof -
  from assms(1) have "filter blocked delivered = delivered"
    by (simp add: list_all_iff)
  then have "length (filter blocked (sort_key pageNumber delivered))
      = length (sort_key pageNumber delivered)"
    by (simp add: blockedInBatch_sorted)
  with assms(2) show ?thesis
    by (auto simp: aggregate_def Let_def split: if_splits)
qed

lemma toBatchResult_simps [simp]:
  "pageNumber (toBatchResult w p r) = p"
  "blocked (toBatchResult w p r) \<longleftrightarrow> r = Blocked"
  "hrefs (toBatchResult w p r) = (case r of Ok html \<Rightarrow> matchHrefs w html | _ \<Rightarrow> [])"
  by (simp_all add: toBatchResult_def split: FetchResult.splits)

lemma distinct_batchPages: "distinct (batchPages s)"
  by (simp add: batchPages_single)

lemma delivered_pages:
  "map pageNumber (map (\<lambda>p. toBatchResult w p (f p)) pages) = pages"
  by (induction pages) simp_all

lemma processResults_single:
  "processResults w [r] st =
     (case processResult w r st of Inl e \<Rightarrow> Inl e | Inr (flow, st') \<Rightarrow> Inr st')"
  by (simp split: sum.splits Flow.splits prod.splits)

lemma finishBatch_counter [simp]:
  "emptyPagesInARow (finishBatch w st) = emptyPagesInARow st"
  by (simp add: finishBatch_def saveCheckpoint_def Let_def)

text \<open>What one result does to the counter, in the loop over the results of a batch.\<close>

lemma processResult_counter:
  "case processResult w (toBatchResult w p r) st of
      Inr (flow, st') \<Rightarrow>
        emptyPagesInARow st' =
          (case r of
             Blocked \<Rightarrow> emptyPagesInARow st
           | Ok html \<Rightarrow> if matchHrefs w html = [] then emptyPagesInARow st + 1 else 0
           | Error \<Rightarrow> emptyPagesInARow st + 1
           | Empty \<Rightarrow> emptyPagesInARow st + 1)
    | Inl e \<Rightarrow>
        (\<exists>html. r = Ok html \<and> (\<exists>h \<in> set (matchHrefs w html). toAbsolute w h = None))"
proof (cases r)
  case (Ok html)
  show ?thesis
  proof (cases "matchHrefs w html = []")
    case True
    with Ok show ?thesis by (simp add: processResult_def toBatchResult_def Let_def)
  next
    case False
    with Ok show ?thesis
      by (auto simp: processResult_def toBatchResult_def Let_def
               split: sum.splits dest: admitHrefs_counter admitHrefs_throws)
  qed
next
  case Blocked
  then show ?thesis by (simp add: processResult_def toBatchResult_def)
next
  case Error
  then show ?thesis by (simp add: processResult_def toBatchResult_def Let_def)
next
  case Empty
  then show ?thesis by (simp add: processResult_def toBatchResult_def Let_def)
qed

lemma processResults_counter:
  "processResults w rs st = Inr st' \<Longrightarrow>
   emptyPagesInARow st' = emptyRun (emptyPagesInARow st) rs"
proof (induction rs arbitrary: st)
  case Nil
  then show ?case by simp
next
  case (Cons r rs)
  show ?case
  proof (cases "blocked r")
    case True
    then have "processResult w r st = Inr (Next, st)" by (simp add: processResult_def)
    with True Cons show ?thesis by simp
  next
    case False
    show ?thesis
    proof (cases "hrefs r = []")
      case True
      with False Cons show ?thesis
        by (auto simp: processResult_def Let_def split: if_splits)
    next
      case nonempty: False
      from Cons.prems False nonempty obtain st3 where
        a: "admitHrefs w (hrefs r)
              (st\<lparr>lastProcessedPage' := pageNumber r, emptyPagesInARow := 0,
                   pagesProcessed := pagesProcessed st + 1,
                   linksFoundThisRun := linksFoundThisRun st + length (hrefs r)\<rparr>) = Inr st3"
        and rest: "processResults w rs st3 = Inr st'"
        by (auto simp: processResult_def Let_def split: sum.splits)
      from admitHrefs_counter [OF a] have "emptyPagesInARow st3 = 0" by simp
      with Cons.IH [OF rest] False nonempty show ?thesis by simp
    qed
  qed
qed

lemma blockedInBatch_all:
  "length (filter P xs) = length xs \<longleftrightarrow> list_all P xs"
proof (induction xs)
  case Nil
  show ?case by simp
next
  case (Cons x xs)
  have "length (filter P xs) \<le> length xs" by (rule length_filter_le)
  then have less: "length (filter P xs) < Suc (length xs)" by arith
  show ?case
  proof (cases "P x")
    case True
    with Cons show ?thesis by simp
  next
    case False
    with less show ?thesis by simp
  qed
qed

lemma blockedInBatch_none:
  "length (filter P xs) = 0 \<longleftrightarrow> \<not> list_ex P xs"
  by (auto simp: list_ex_iff filter_empty_conv)

lemma sort_key_ascending:
  assumes "sorted (map pageNumber ascending)" and "mset ascending = mset delivered"
    and "distinct (map pageNumber delivered)"
  shows "sort_key pageNumber delivered = ascending"
proof (rule sort_key_inj_key_eq)
  show "mset delivered = mset ascending" using assms(2) by simp
  show "inj_on pageNumber (set delivered)" using assms(3) by (simp add: distinct_map)
  show "sorted (map pageNumber ascending)" by (rule assms(1))
qed

text \<open>A pass is the loop over the results in ascending order of page number.\<close>

lemma aggregate_in_page_order:
  assumes "sorted (map pageNumber ascending)" and "mset ascending = mset delivered"
    and "distinct (map pageNumber delivered)"
  shows "aggregate w delivered st =
           (if list_all blocked ascending then
              (if MAX_BLOCKED_BEFORE_STOP \<le> blockedCount st + 1
               then Inr (Break, st\<lparr>blockedCount := blockedCount st + 1, shouldStop := True\<rparr>)
               else Inr (Next, st\<lparr>blockedCount := blockedCount st + 1,
                                  sleeps := sleeps st @ [BLOCKED_BACKOFF_MS],
                                  start := start st - int CONCURRENCY\<rparr>))
            else
              (case processResults w ascending
                      (if list_ex blocked ascending then st else st\<lparr>blockedCount := 0\<rparr>) of
                 Inl e \<Rightarrow> Inl e
               | Inr st2 \<Rightarrow> Inr (Next, finishBatch w st2)))"
  unfolding aggregate_def sort_key_ascending [OF assms] Let_def
    blockedInBatch_all blockedInBatch_none
  by simp

text \<open>
  C8. In whatever order the results of a batch are delivered, the pass does the same, and
  what it does is the loop over the results in ascending order of page number: a batch of
  blocked pages only counts as blocked and is retried or stops the session; any other
  batch resets the counter of blocked batches when no page is blocked, goes through the
  results from the lowest page to the highest, and ends the batch. So the session after
  the pass, with all its counters, the links and the last processed page, is the one
  obtained in page order, and the counter of consecutive empty pages follows the rule of
  \<open>emptyRun\<close> along that order. The results of a batch that the loop dispatches have
  distinct page numbers, as the statement asks.
\<close>

theorem aggregate_any_completion_order:
  assumes "mset delivered' = mset delivered" and "distinct (map pageNumber delivered)"
    and "sorted (map pageNumber ascending)" and "mset ascending = mset delivered"
  shows "aggregate w delivered' st = aggregate w delivered st \<and>
         aggregate w delivered' st =
           (if list_all blocked ascending then
              (if MAX_BLOCKED_BEFORE_STOP \<le> blockedCount st + 1
               then Inr (Break, st\<lparr>blockedCount := blockedCount st + 1, shouldStop := True\<rparr>)
               else Inr (Next, st\<lparr>blockedCount := blockedCount st + 1,
                                  sleeps := sleeps st @ [BLOCKED_BACKOFF_MS],
                                  start := start st - int CONCURRENCY\<rparr>))
            else
              (case processResults w ascending
                      (if list_ex blocked ascending then st else st\<lparr>blockedCount := 0\<rparr>) of
                 Inl e \<Rightarrow> Inl e
               | Inr st2 \<Rightarrow> Inr (Next, finishBatch w st2))) \<and>
         (\<forall>st2. processResults w ascending st = Inr st2 \<longrightarrow>
                emptyPagesInARow st2 = emptyRun (emptyPagesInARow st) ascending) \<and>
         sort_key pageNumber delivered' = ascending \<and>
         distinct (map pageNumber (map (\<lambda>p. toBatchResult w p (fetched p)) (batchPages s)))"
proof -
  from assms(1,2) have d': "distinct (map pageNumber delivered')"
    by (metis distinct_map mset_eq_setD mset_eq_imp_distinct_iff distinct_map)
  from assms(1,4) have m': "mset ascending = mset delivered'" by simp
  have one: "aggregate w delivered st = aggregate w delivered' st"
    unfolding aggregate_in_page_order [OF assms(3,4,2)]
      aggregate_in_page_order [OF assms(3) m' d'] ..
  have "distinct (map pageNumber (map (\<lambda>p. toBatchResult w p (fetched p)) (batchPages s)))"
    unfolding delivered_pages by (rule distinct_batchPages)
  with one show ?thesis
    using aggregate_in_page_order [OF assms(3) m' d', of w st]
      sort_key_ascending [OF assms(3) m' d']
    by (auto dest: processResults_counter)
qed

theorem aggregate_any_completion_order_witness:
  "(let w = \<lparr>BATCH_DELAY_MS = 500, toAbsolute = Some, matchHrefs = (\<lambda>html. []),
             clock = (\<lambda>n. ''2026-01-01T00:00:00.000Z''),
             network = (\<lambda>round url attempt. Threw)\<rparr>;
        st = initialSession [] 5;
        r5 = \<lparr>pageNumber = 5, hrefs = [''https://a/x.pdf''], blocked = False\<rparr>;
        r6 = \<lparr>pageNumber = 6, hrefs = [], blocked = False\<rparr>
    in mset [r6, r5] = mset [r5, r6] \<and> distinct (map pageNumber [r5, r6]) \<and>
       sorted (map pageNumber [r5, r6]) \<and>
       processResults w [r6, r5] st \<noteq> processResults w [r5, r6] st \<and>
       aggregate w [r6, r5] st = aggregate w [r5, r6] st \<and>
       aggregate w [r6, r5] st =
         (case processResults w [r5, r6] st of
            Inl e \<Rightarrow> Inl e | Inr st2 \<Rightarrow> Inr (Next, finishBatch w st2)) \<and>
       aggregate w [r6, r5] st =
         Inr (Next, st\<lparr>lastProcessedPage' := 6, emptyPagesInARow := 1, pagesProcessed := 1,
                         linksFoundThisRun := 1, newLinksThisRun := 1,
                         uniqueLinks := {''https://a/x.pdf''}, allLinks := [''https://a/x.pdf''],
                         batchCount := 1, sleeps := [500]\<rparr>))"
proof -
  let ?w = "\<lparr>BATCH_DELAY_MS = 500, toAbsolute = Some, matchHrefs = (\<lambda>html. []),
             clock = (\<lambda>n. ''2026-01-01T00:00:00.000Z''),
             network = (\<lambda>round url attempt. Threw)\<rparr>"
  let ?st = "initialSession [] 5"
  let ?r5 = "\<lparr>pageNumber = 5, hrefs = [''https://a/x.pdf''], blocked = False\<rparr>"
  let ?r6 = "\<lparr>pageNumber = 6, hrefs = [], blocked = False\<rparr>"
  have perm: "mset [?r6, ?r5] = mset [?r5, ?r6]" by simp
  have pages: "distinct (map pageNumber [?r5, ?r6])" by simp
  have asc: "sorted (map pageNumber [?r5, ?r6])" by simp
  have same: "mset [?r5, ?r6] = mset [?r5, ?r6]" by simp
  have arrival: "processResults ?w [?r6, ?r5] ?st \<noteq> processResults ?w [?r5, ?r6] ?st"
    by (simp add: initialSession_def processResult_def EMPTY_PAGES_BEFORE_STOP_def admit_def
          Let_def)
  have inorder: "processResults ?w [?r5, ?r6] ?st =
         Inr (?st\<lparr>lastProcessedPage' := 6, emptyPagesInARow := 1, pagesProcessed := 1,
                         linksFoundThisRun := 1, newLinksThisRun := 1,
                         uniqueLinks := {''https://a/x.pdf''}, allLinks := [''https://a/x.pdf'']\<rparr>)"
    by (simp add: initialSession_def processResult_def EMPTY_PAGES_BEFORE_STOP_def admit_def
          Let_def)
  note order = aggregate_any_completion_order [OF perm pages asc same, of ?w ?st]
  from order have one: "aggregate ?w [?r6, ?r5] ?st = aggregate ?w [?r5, ?r6] ?st"
    by (rule conjunct1)
  have none: "list_all blocked [?r5, ?r6] = False" "list_ex blocked [?r5, ?r6] = False"
    by simp_all
  have pass: "aggregate ?w [?r6, ?r5] ?st =
         (case processResults ?w [?r5, ?r6] (?st\<lparr>blockedCount := 0\<rparr>) of
            Inl e \<Rightarrow> Inl e | Inr st2 \<Rightarrow> Inr (Next, finishBatch ?w st2))"
    using order [THEN conjunct2, THEN conjunct1] unfolding none if_False .
  have zero: "?st\<lparr>blockedCount := 0\<rparr> = ?st" by (simp add: initialSession_def)
  from pass have pass': "aggregate ?w [?r6, ?r5] ?st =
         (case processResults ?w [?r5, ?r6] ?st of
            Inl e \<Rightarrow> Inl e | Inr st2 \<Rightarrow> Inr (Next, finishBatch ?w st2))"
    unfolding zero .
  have result: "aggregate ?w [?r6, ?r5] ?st =
         Inr (Next, ?st\<lparr>lastProcessedPage' := 6, emptyPagesInARow := 1, pagesProcessed := 1,
                         linksFoundThisRun := 1, newLinksThisRun := 1,
                         uniqueLinks := {''https://a/x.pdf''}, allLinks := [''https://a/x.pdf''],
                         batchCount := 1, sleeps := [500]\<rparr>)"
    unfolding pass' inorder
    by (simp add: finishBatch_def CHECKPOINT_INTERVAL_def initialSession_def Let_def)
  from perm pages asc arrival one pass' result show ?thesis
    unfolding Let_def by (intro conjI)
qed

lemma processResult_throws:
  "processResult w r st = Inl e \<Longrightarrow>
   e = InvalidURL \<and> \<not> blocked r \<and> (\<exists>h \<in> set (hrefs r). toAbsolute w h = None)"
  by (auto simp: processResult_def Let_def split: if_splits sum.splits dest: admitHrefs_throws)

lemma processResults_throws:
  "processResults w rs st = Inl e \<Longrightarrow>
   e = InvalidURL \<and> (\<exists>r \<in> set rs. \<not> blocked r \<and> (\<exists>h \<in> set (hrefs r). toAbsolute w h = None))"
proof (induction rs arbitrary: st)
  case Nil
  then show ?case by simp
next
  case (Cons r rs)
  show ?case
  proof (cases "processResult w r st")
    case (Inl e')
    with Cons.prems have "e' = e" by simp
    with processResult_throws [OF Inl] show ?thesis by auto
  next
    case (Inr x)
    obtain flow st' where x: "x = (flow, st')" by (cases x)
    with Inr Cons.prems have "processResults w rs st' = Inl e"
      by (cases flow) simp_all
    from Cons.IH [OF this] show ?thesis by auto
  qed
qed

text \<open>The counter of blocked batches after a pass, for any batch.\<close>

lemma aggregate_blockedCount:
  assumes "aggregate w delivered st = Inr (flow, st')"
  shows "blockedCount st' =
           (if length (filter blocked delivered) = length delivered then blockedCount st + 1
            else if filter blocked delivered = [] then 0
            else blockedCount st)"
proof (cases "length (filter blocked delivered) = length delivered")
  case True
  with assms show ?thesis
    by (auto simp: aggregate_def blockedInBatch_sorted Let_def split: if_splits)
next
  case False
  with assms obtain st2 where
    "processResults w (sort_key pageNumber delivered)
       (if filter blocked delivered = [] then st\<lparr>blockedCount := 0\<rparr> else st) = Inr st2"
    and "st' = finishBatch w st2"
    by (auto simp: aggregate_def blockedInBatch_sorted Let_def split: sum.splits)
  with False show ?thesis
    by (auto dest!: processResults_cursor split: if_splits)
qed

lemma aggregate_flow:
  assumes "aggregate w delivered st = Inr (flow, st')"
    and "length (filter blocked delivered) \<noteq> length delivered"
  shows "flow = Next"
  using assms by (auto simp: aggregate_def blockedInBatch_sorted Let_def split: sum.splits)

lemma aggregate_throws:
  assumes "aggregate w delivered st = Inl e"
  shows "e = InvalidURL \<and>
         (\<exists>r \<in> set delivered. \<not> blocked r \<and> (\<exists>h \<in> set (hrefs r). toAbsolute w h = None))"
proof -
  from assms obtain st1 where "processResults w (sort_key pageNumber delivered) st1 = Inl e"
    by (auto simp: aggregate_def Let_def split: if_splits sum.splits)
  from processResults_throws [OF this] show ?thesis by simp
qed

text \<open>
  C5. A batch that the loop dispatches and in which at least one page does not resolve to
  \<open>blocked\<close>: the pass ends with the counter of blocked batches at zero and goes on to
  the next batch. (The pass is cut short only when a link of the batch is no valid URL;
  then the test ends with that exception.) The loop dispatches one page per batch; for
  wider batches \<open>aggregate_blockedCount\<close> tells what the counter becomes.
\<close>

theorem blockedCount_reset:
  assumes "\<exists>p \<in> set (batchPages (start st)). fetchPage w (length (dispatched st)) p \<noteq> Blocked"
  shows "case loopBody w st of
           Inr (flow, st') \<Rightarrow> flow = Next \<and> blockedCount st' = 0
         | Inl e \<Rightarrow>
             e = InvalidURL \<and>
             (\<exists>p \<in> set (batchPages (start st)). \<exists>html.
                 fetchPage w (length (dispatched st)) p = Ok html \<and>
                 (\<exists>h \<in> set (matchHrefs w html). toAbsolute w h = None))"
proof -
  let ?delivered = "map (\<lambda>p. toBatchResult w p (fetchPage w (length (dispatched st)) p))
                      (batchPages (start st))"
  let ?st0 = "st\<lparr>dispatched := dispatched st @ [batchPages (start st)]\<rparr>"
  have body: "loopBody w st = aggregate w ?delivered ?st0"
    by (simp add: loopBody_def Let_def)
  from assms have none: "filter blocked ?delivered = []" and some: "?delivered \<noteq> []"
    by (auto simp: batchPages_single split: if_splits)
  show ?thesis
  proof (cases "loopBody w st")
    case (Inl e)
    with body have "aggregate w ?delivered ?st0 = Inl e" by simp
    from aggregate_throws [OF this] obtain p h where e: "e = InvalidURL"
      and p: "p \<in> set (batchPages (start st))"
      and h: "h \<in> set (hrefs (toBatchResult w p (fetchPage w (length (dispatched st)) p)))"
             "toAbsolute w h = None"
      by auto
    from h obtain html where "fetchPage w (length (dispatched st)) p = Ok html"
      and "h \<in> set (matchHrefs w html)"
      by (cases "fetchPage w (length (dispatched st)) p") simp_all
    with e p h(2) Inl show ?thesis by auto
  next
    case (Inr x)
    obtain flow st' where x: "x = (flow, st')" by (cases x)
    with Inr body have a: "aggregate w ?delivered ?st0 = Inr (flow, st')" by simp
    from some none have ne: "length (filter blocked ?delivered) \<noteq> length ?delivered" by simp
    from aggregate_blockedCount [OF a] aggregate_flow [OF a ne] none ne Inr x
    show ?thesis by simp
  qed
qed

theorem blockedCount_reset_witness:
  "(let w = \<lparr>BATCH_DELAY_MS = 500, toAbsolute = Some, matchHrefs = (\<lambda>html. []),
             clock = (\<lambda>n. ''2026-01-01T00:00:00.000Z''),
             network = (\<lambda>round url attempt. Response 200 ''page'')\<rparr>;
        st = (initialSession [] 7)\<lparr>blockedCount := 2\<rparr>
    in (\<exists>p \<in> set (batchPages (start st)). fetchPage w (length (dispatched st)) p \<noteq> Blocked) \<and>
       loopBody w st =
         Inr (Next, st\<lparr>dispatched := [[7]], blockedCount := 0, lastProcessedPage' := 7,
                         emptyPagesInARow := 1, batchCount := 1, sleeps := [500]\<rparr>))"
proof -
  let ?w = "\<lparr>BATCH_DELAY_MS = 500, toAbsolute = Some, matchHrefs = (\<lambda>html. []),
             clock = (\<lambda>n. ''2026-01-01T00:00:00.000Z''),
             network = (\<lambda>round url attempt. Response 200 ''page'')\<rparr>"
  let ?st = "(initialSession [] 7)\<lparr>blockedCount := 2\<rparr>"
  have page: "fetchPage ?w round p = Ok ''page''" for round p
    by (simp add: fetchPage_def fetchWithRetry_def fetchLoop.simps MAX_RETRIES_def
          isBlockedResponse_def ok_def finish_def)
  have some: "\<exists>p \<in> set (batchPages (start ?st)). fetchPage ?w (length (dispatched ?st)) p \<noteq> Blocked"
    by (simp add: page batchPages_single initialSession_def MAX_PAGE_def)
  have "loopBody ?w ?st =
         Inr (Next, ?st\<lparr>dispatched := [[7]], blockedCount := 0, lastProcessedPage' := 7,
                         emptyPagesInARow := 1, batchCount := 1, sleeps := [500]\<rparr>)"
    using blockedCount_reset [OF some]
    by (simp add: page loopBody_def batchPages_single initialSession_def MAX_PAGE_def
          aggregate_def toBatchResult_def processResult_def EMPTY_PAGES_BEFORE_STOP_def
          finishBatch_def CHECKPOINT_INTERVAL_def Let_def)
  with some show ?thesis unfolding Let_def by (intro conjI)
qed

lemma loopBody_all_blocked:
  assumes "start st \<le> MAX_PAGE"
    and "list_all (\<lambda>p. fetchPage w (length (dispatched st)) p = Blocked) (batchPages (start st))"
  shows "loopBody w st =
           (if MAX_BLOCKED_BEFORE_STOP \<le> blockedCount st + 1
            then Inr (Break, st\<lparr>dispatched := dispatched st @ [batchPages (start st)],
                                blockedCount := blockedCount st + 1,
                                shouldStop := True\<rparr>)
            else Inr (Next, st\<lparr>dispatched := dispatched st @ [batchPages (start st)],
                               blockedCount := blockedCount st + 1,
                               sleeps := sleeps st @ [BLOCKED_BACKOFF_MS],
                               start := start st - int CONCURRENCY\<rparr>))"
  using assms
  by (simp add: loopBody_def aggregate_def batchPages_single Let_def)

lemma mainLoop_all_blocked:
  assumes "start st \<le> MAX_PAGE" and "\<not> shouldStop st"
    and "list_all (\<lambda>p. fetchPage w (length (dispatched st)) p = Blocked) (batchPages (start st))"
  shows "mainLoop w st =
           (if MAX_BLOCKED_BEFORE_STOP \<le> blockedCount st + 1
            then Inr (st\<lparr>dispatched := dispatched st @ [batchPages (start st)],
                         blockedCount := blockedCount st + 1,
                         shouldStop := True\<rparr>)
            else mainLoop w (st\<lparr>dispatched := dispatched st @ [batchPages (start st)],
                               blockedCount := blockedCount st + 1,
                               sleeps := sleeps st @ [BLOCKED_BACKOFF_MS]\<rparr>))"
  using assms(1,2)
  by (subst mainLoop.simps) (simp add: loopBody_all_blocked [OF assms(1,3)])

lemma mainLoop_blocked_run:
  assumes "start st \<le> MAX_PAGE" and "\<not> shouldStop st"
    and "blockedCount st + n = MAX_BLOCKED_BEFORE_STOP" and "0 < n"
    and "\<forall>j<n. list_all (\<lambda>p. fetchPage w (length (dispatched st) + j) p = Blocked)
                 (batchPages (start st))"
  shows "mainLoop w st =
           Inr (st\<lparr>dispatched := dispatched st @ replicate n (batchPages (start st)),
                   blockedCount := MAX_BLOCKED_BEFORE_STOP,
                   shouldStop := True,
                   sleeps := sleeps st @ replicate (n - 1) BLOCKED_BACKOFF_MS\<rparr>)"
  using assms
proof (induction n arbitrary: st)
  case 0
  then show ?case by simp
next
  case (Suc n)
  from Suc.prems(5) have now:
    "list_all (\<lambda>p. fetchPage w (length (dispatched st)) p = Blocked) (batchPages (start st))"
    by (metis add.right_neutral zero_less_Suc)
  note step = mainLoop_all_blocked [OF Suc.prems(1,2) now]
  show ?case
  proof (cases "n = 0")
    case True
    with Suc.prems(3) step show ?thesis by simp
  next
    case False
    let ?st1 = "st\<lparr>dispatched := dispatched st @ [batchPages (start st)],
                    blockedCount := blockedCount st + 1,
                    sleeps := sleeps st @ [BLOCKED_BACKOFF_MS]\<rparr>"
    from False Suc.prems(3) step have s: "mainLoop w st = mainLoop w ?st1" by simp
    have later: "\<forall>j<n. list_all (\<lambda>p. fetchPage w (length (dispatched ?st1) + j) p = Blocked)
                 (batchPages (start ?st1))"
    proof (intro allI impI)
      fix j assume "j < n"
      then have "Suc j < Suc n" by simp
      with Suc.prems(5) have "list_all (\<lambda>p. fetchPage w (length (dispatched st) + Suc j) p = Blocked)
                 (batchPages (start st))" by blast
      then show "list_all (\<lambda>p. fetchPage w (length (dispatched ?st1) + j) p = Blocked)
                 (batchPages (start ?st1))" by simp
    qed
    have "mainLoop w ?st1 =
           Inr (?st1\<lparr>dispatched := dispatched ?st1 @ replicate n (batchPages (start ?st1)),
                   blockedCount := MAX_BLOCKED_BEFORE_STOP,
                   shouldStop := True,
                   sleeps := sleeps ?st1 @ replicate (n - 1) BLOCKED_BACKOFF_MS\<rparr>)"
      using Suc.prems(1,2,3) False later by (intro Suc.IH) simp_all
    with s False show ?thesis
      by (cases n) (simp_all add: replicate_app_Cons_same)
  qed
qed

text \<open>
  C4. A batch that the loop dispatches and in which every page resolves to \<open>blocked\<close>.
  Below the limit of blocked batches, the loop sleeps the block cooldown and goes on with
  \<open>start\<close> where it was, so that its next pass dispatches the same pages again. At the
  limit it stops: \<open>shouldStop\<close> is set, nothing is slept and nothing more is dispatched.
  And the retries are bounded: when the batch stays blocked, the loop ends after as many
  dispatches of that same batch as were missing to \<open>MAX_BLOCKED_BEFORE_STOP\<close>, stopped,
  with a cooldown between any two of them.
\<close>

theorem full_block_redispatch:
  assumes "start st \<le> MAX_PAGE" and "\<not> shouldStop st"
    and "list_all (\<lambda>p. fetchPage w (length (dispatched st)) p = Blocked) (batchPages (start st))"
  shows "(let pages = batchPages (start st);
              retry = st\<lparr>dispatched := dispatched st @ [pages],
                          blockedCount := blockedCount st + 1,
                          sleeps := sleeps st @ [BLOCKED_BACKOFF_MS]\<rparr>;
              stop = st\<lparr>dispatched := dispatched st @ [pages],
                         blockedCount := blockedCount st + 1,
                         shouldStop := True\<rparr>
          in (if MAX_BLOCKED_BEFORE_STOP \<le> blockedCount st + 1
              then mainLoop w st = Inr stop
              else mainLoop w st = mainLoop w retry \<and> start retry = start st \<and>
                   batchPages (start retry) = pages \<and> \<not> shouldStop retry) \<and>
             (\<forall>n. 0 < n \<and> blockedCount st + n = MAX_BLOCKED_BEFORE_STOP \<and>
                  (\<forall>j<n. list_all (\<lambda>p. fetchPage w (length (dispatched st) + j) p = Blocked)
                           pages) \<longrightarrow>
                  mainLoop w st =
                    Inr (st\<lparr>dispatched := dispatched st @ replicate n pages,
                            blockedCount := MAX_BLOCKED_BEFORE_STOP,
                            shouldStop := True,
                            sleeps := sleeps st @ replicate (n - 1) BLOCKED_BACKOFF_MS\<rparr>)))"
proof -
  note step = mainLoop_all_blocked [OF assms]
  have run: "mainLoop w st =
                    Inr (st\<lparr>dispatched := dispatched st @ replicate n (batchPages (start st)),
                            blockedCount := MAX_BLOCKED_BEFORE_STOP,
                            shouldStop := True,
                            sleeps := sleeps st @ replicate (n - 1) BLOCKED_BACKOFF_MS\<rparr>)"
    if "0 < n" "blockedCount st + n = MAX_BLOCKED_BEFORE_STOP"
      "\<forall>j<n. list_all (\<lambda>p. fetchPage w (length (dispatched st) + j) p = Blocked)
                           (batchPages (start st))" for n
    using assms(1,2) that(2,1,3) by (rule mainLoop_blocked_run)
  from step assms(2) run show ?thesis
    unfolding Let_def by (auto split: if_splits)
qed

theorem full_block_redispatch_witness:
  "(let w = \<lparr>BATCH_DELAY_MS = 500, toAbsolute = Some, matchHrefs = (\<lambda>html. []),
             clock = (\<lambda>n. ''2026-01-01T00:00:00.000Z''),
             network = (\<lambda>round url attempt. Response 200 ''Access Denied'')\<rparr>;
        st = initialSession [] 7
    in start st \<le> MAX_PAGE \<and> \<not> shouldStop st \<and> batchPages (start st) = [7] \<and>
       list_all (\<lambda>p. fetchPage w (length (dispatched st)) p = Blocked) (batchPages (start st)) \<and>
       mainLoop w st =
         Inr (st\<lparr>dispatched := [[7], [7], [7]], blockedCount := 3, shouldStop := True,
                 sleeps := [30000, 30000]\<rparr>))"
proof -
  let ?w = "\<lparr>BATCH_DELAY_MS = 500, toAbsolute = Some, matchHrefs = (\<lambda>html. []),
             clock = (\<lambda>n. ''2026-01-01T00:00:00.000Z''),
             network = (\<lambda>round url attempt. Response 200 ''Access Denied'')\<rparr>"
  let ?st = "initialSession [] 7"
  have blocked: "fetchPage ?w round p = Blocked" for round p
    by (simp add: fetchPage_def fetchWithRetry_def fetchLoop.simps MAX_RETRIES_def
          isBlockedResponse_def retryAfter_def finish_def)
  have cursor: "start ?st \<le> MAX_PAGE" and going: "\<not> shouldStop ?st"
    and pages: "batchPages (start ?st) = [7]"
    by (simp_all add: initialSession_def MAX_PAGE_def batchPages_single)
  have now: "list_all (\<lambda>p. fetchPage ?w (length (dispatched ?st)) p = Blocked)
               (batchPages (start ?st))"
    by (simp add: blocked list_all_iff)
  have count: "blockedCount ?st + 3 = MAX_BLOCKED_BEFORE_STOP"
    by (simp add: initialSession_def MAX_BLOCKED_BEFORE_STOP_def)
  have "mainLoop ?w ?st =
          Inr (?st\<lparr>dispatched := dispatched ?st @ replicate 3 (batchPages (start ?st)),
                   blockedCount := MAX_BLOCKED_BEFORE_STOP,
                   shouldStop := True,
                   sleeps := sleeps ?st @ replicate (3 - 1) BLOCKED_BACKOFF_MS\<rparr>)"
  proof (rule full_block_redispatch [OF cursor going now, unfolded Let_def,
        THEN conjunct2, rule_format, of 3])
    show "0 < (3::nat) \<and> blockedCount ?st + 3 = MAX_BLOCKED_BEFORE_STOP \<and>
      (\<forall>j<3. list_all (\<lambda>p. fetchPage ?w (length (dispatched ?st) + j) p = Blocked)
                (batchPages (start ?st)))"
      using count by (simp add: blocked list_all_iff)
  qed
  then have "mainLoop ?w ?st =
         Inr (?st\<lparr>dispatched := [[7], [7], [7]], blockedCount := 3, shouldStop := True,
                 sleeps := [30000, 30000]\<rparr>)"
    by (simp add: batchPages_single MAX_PAGE_def initialSession_def
          MAX_BLOCKED_BEFORE_STOP_def BLOCKED_BACKOFF_MS_def numeral_3_eq_3)
  with cursor going pages now show ?thesis
    unfolding Let_def by (intro conjI)
qed

text \<open>The same for a whole pass of the loop, whose batch is the page at \<open>start\<close>.\<close>

lemma loopBody_counter:
  assumes "start st \<le> MAX_PAGE"
  shows "case loopBody w st of
      Inr (flow, st') \<Rightarrow>
        emptyPagesInARow st' =
          (case fetchPage w (length (dispatched st)) (start st) of
             Blocked \<Rightarrow> emptyPagesInARow st
           | Ok html \<Rightarrow> if matchHrefs w html = [] then emptyPagesInARow st + 1 else 0
           | Error \<Rightarrow> emptyPagesInARow st + 1
           | Empty \<Rightarrow> emptyPagesInARow st + 1)
    | Inl e \<Rightarrow>
        (\<exists>html. fetchPage w (length (dispatched st)) (start st) = Ok html \<and>
                (\<exists>h \<in> set (matchHrefs w html). toAbsolute w h = None))"
proof (cases "fetchPage w (length (dispatched st)) (start st) = Blocked")
  case True
  with assms have "list_all (\<lambda>p. fetchPage w (length (dispatched st)) p = Blocked)
      (batchPages (start st))"
    by (simp add: batchPages_single)
  from loopBody_all_blocked [OF assms this] True show ?thesis by simp
next
  case False
  let ?r = "fetchPage w (length (dispatched st)) (start st)"
  let ?st0 = "st\<lparr>dispatched := dispatched st @ [batchPages (start st)], blockedCount := 0\<rparr>"
  from assms False have body: "loopBody w st =
      (case processResult w (toBatchResult w (start st) ?r) ?st0 of
         Inl e \<Rightarrow> Inl e
       | Inr (flow, st2) \<Rightarrow> Inr (Next, finishBatch w st2))"
    by (simp add: loopBody_def aggregate_def batchPages_single Let_def
          processResults_single [simplified] split: sum.splits prod.splits Flow.splits)
  from processResult_counter [where w = w and p = "start st" and r = ?r and st = ?st0] False show ?thesis
    unfolding body by (auto split: sum.splits FetchResult.splits)
qed

text \<open>
  C1, as the code has it. What a page does to the counter of consecutive empty pages is
  decided by the answer of the fetcher, in every pass of the batch loop: a \<open>blocked\<close>
  page leaves the counter as it was; a page that the fetcher gave up as \<open>error\<close> arrives
  in the batch as a page without links, like a fetched page without matching links, and
  both raise the counter by one; a fetched page with at least one matching link, new or
  known, sets the counter to zero. (A pass throws only when a matched link is no valid
  URL.) The same holds result by result in the loop over the results of any batch, where
  blocked results are passed over: the counter after the batch follows the rule of
  \<open>emptyRun\<close>, and a batch of blocked pages only leaves it as it was.
\<close>

theorem emptyPagesInARow_by_outcome:
  "(start st \<le> MAX_PAGE \<longrightarrow>
      (case loopBody w st of
         Inr (flow, st') \<Rightarrow>
           emptyPagesInARow st' =
             (case fetchPage w (length (dispatched st)) (start st) of
                Blocked \<Rightarrow> emptyPagesInARow st
              | Ok html \<Rightarrow> if matchHrefs w html = [] then emptyPagesInARow st + 1 else 0
              | Error \<Rightarrow> emptyPagesInARow st + 1
              | Empty \<Rightarrow> emptyPagesInARow st + 1)
       | Inl e \<Rightarrow>
           (\<exists>html. fetchPage w (length (dispatched st)) (start st) = Ok html \<and>
                   (\<exists>h \<in> set (matchHrefs w html). toAbsolute w h = None)))) \<and>
   (case processResult w (toBatchResult w p r) st of
      Inr (flow, st') \<Rightarrow>
        emptyPagesInARow st' =
          (case r of
             Blocked \<Rightarrow> emptyPagesInARow st
           | Ok html \<Rightarrow> if matchHrefs w html = [] then emptyPagesInARow st + 1 else 0
           | Error \<Rightarrow> emptyPagesInARow st + 1
           | Empty \<Rightarrow> emptyPagesInARow st + 1)
    | Inl e \<Rightarrow>
        (\<exists>html. r = Ok html \<and> (\<exists>h \<in> set (matchHrefs w html). toAbsolute w h = None))) \<and>
   processResults w rs st = processResults w (filter (\<lambda>x. \<not> blocked x) rs) st \<and>
   (processResults w rs st = Inr st2 \<longrightarrow>
      emptyPagesInARow st2 = emptyRun (emptyPagesInARow st) rs) \<and>
   (list_all blocked delivered \<and> aggregate w delivered st = Inr (flow, st'') \<longrightarrow>
      emptyPagesInARow st'' = emptyPagesInARow st)"
proof -
  have pass: "start st \<le> MAX_PAGE \<longrightarrow>
      (case loopBody w st of
         Inr (flow, st') \<Rightarrow>
           emptyPagesInARow st' =
             (case fetchPage w (length (dispatched st)) (start st) of
                Blocked \<Rightarrow> emptyPagesInARow st
              | Ok html \<Rightarrow> if matchHrefs w html = [] then emptyPagesInARow st + 1 else 0
              | Error \<Rightarrow> emptyPagesInARow st + 1
              | Empty \<Rightarrow> emptyPagesInARow st + 1)
       | Inl e \<Rightarrow>
           (\<exists>html. fetchPage w (length (dispatched st)) (start st) = Ok html \<and>
                   (\<exists>h \<in> set (matchHrefs w html). toAbsolute w h = None)))"
    by (rule impI) (rule loopBody_counter)
  note one = processResult_counter [where w = w and p = p and r = r and st = st]
  have skip: "processResults w rs st = processResults w (filter (\<lambda>x. \<not> blocked x) rs) st"
    by (rule processResults_skips_blocked)
  have run: "processResults w rs st = Inr st2 \<longrightarrow>
      emptyPagesInARow st2 = emptyRun (emptyPagesInARow st) rs"
    by (rule impI) (rule processResults_counter)
  have full: "list_all blocked delivered \<and> aggregate w delivered st = Inr (flow, st'') \<longrightarrow>
      emptyPagesInARow st'' = emptyPagesInARow st"
    using aggregate_all_blocked_counter [of delivered w st flow st''] by blast
  from pass one skip run full show ?thesis by (intro conjI)
qed

theorem emptyPagesInARow_by_outcome_witness:
  "(let w = \<lparr>BATCH_DELAY_MS = 500,
             toAbsolute = (\<lambda>href. Some (''https://www.justice.gov'' @ href)),
             matchHrefs = (\<lambda>html. if html = ''none'' then [] else [''/x.pdf'']),
             clock = (\<lambda>n. ''2026-01-01T00:00:00.000Z''),
             network = (\<lambda>round url attempt.
                          if round = 0 then Response 200 ''Access Denied''
                          else if round = 1 then Response 200 ''none''
                          else Response 200 ''page'')\<rparr>;
        st = (initialSession [] 5)\<lparr>emptyPagesInARow := 4\<rparr>;
        st1 = st\<lparr>dispatched := [[5]]\<rparr>;
        st2 = st\<lparr>dispatched := [[5], [5]]\<rparr>
    in start st \<le> MAX_PAGE \<and> start st1 \<le> MAX_PAGE \<and> start st2 \<le> MAX_PAGE \<and>
       fetchPage w 0 5 = Blocked \<and>
       loopBody w st
         = Inr (Next, st\<lparr>dispatched := [[5]], blockedCount := 1, sleeps := [30000],
                         start := 4\<rparr>) \<and>
       fetchPage w 1 5 = Ok ''none'' \<and>
       loopBody w st1
         = Inr (Next, st1\<lparr>dispatched := [[5], [5]], lastProcessedPage' := 5,
                          emptyPagesInARow := 5, batchCount := 1, sleeps := [500]\<rparr>) \<and>
       fetchPage w 2 5 = Ok ''page'' \<and>
       loopBody w st2
         = Inr (Next, st2\<lparr>dispatched := [[5], [5], [5]], lastProcessedPage' := 5,
                          emptyPagesInARow := 0, pagesProcessed := 1, linksFoundThisRun := 1,
                          newLinksThisRun := 1,
                          uniqueLinks := {''https://www.justice.gov/x.pdf''},
                          allLinks := [''https://www.justice.gov/x.pdf''],
                          batchCount := 1, sleeps := [500]\<rparr>))"
  using emptyPagesInARow_by_outcome
    [where w = "\<lparr>BATCH_DELAY_MS = 500,
             toAbsolute = (\<lambda>href. Some (''https://www.justice.gov'' @ href)),
             matchHrefs = (\<lambda>html. if html = ''none'' then [] else [''/x.pdf'']),
             clock = (\<lambda>n. ''2026-01-01T00:00:00.000Z''),
             network = (\<lambda>round url attempt.
                          if round = 0 then Response 200 ''Access Denied''
                          else if round = 1 then Response 200 ''none''
                          else Response 200 ''page'')\<rparr>"
        and st = "(initialSession [] 5)\<lparr>emptyPagesInARow := 4\<rparr>"
        and p = 5 and r = Error and rs = "[]"]
  by (simp add: Let_def initialSession_def MAX_PAGE_def fetchPage_def fetchWithRetry_def
        fetchLoop.simps MAX_RETRIES_def isBlockedResponse_def ok_def retryAfter_def finish_def
        loopBody_def batchPages_single aggregate_def toBatchResult_def processResult_def
        EMPTY_PAGES_BEFORE_STOP_def MAX_BLOCKED_BEFORE_STOP_def BLOCKED_BACKOFF_MS_def
        CONCURRENCY_def finishBatch_def CHECKPOINT_INTERVAL_def admit_def)

text \<open>
  The claim as stated fails for \<open>error\<close>: when every request of the page throws, the
  fetcher answers \<open>error\<close>, and the pass raises the counter from 0 to 1.
\<close>

theorem error_page_counts_as_empty:
  "(let w = \<lparr>BATCH_DELAY_MS = 500, toAbsolute = Some, matchHrefs = (\<lambda>html. []),
             clock = (\<lambda>n. ''2026-01-01T00:00:00.000Z''),
             network = (\<lambda>round url attempt. Threw)\<rparr>;
        st = initialSession [] 0
    in fetchPage w 0 0 = Error \<and>
       emptyPagesInARow st = 0 \<and>
       loopBody w st =
         Inr (Next, st\<lparr>dispatched := [[0]], lastProcessedPage' := 0, emptyPagesInARow := 1,
                       batchCount := 1, sleeps := [500]\<rparr>))"
  by (simp add: Let_def fetchPage_def fetchWithRetry_def fetchLoop.simps MAX_RETRIES_def
        retryAfter_def finish_def initialSession_def loopBody_def batchPages_single
        MAX_PAGE_def aggregate_def toBatchResult_def processResult_def
        EMPTY_PAGES_BEFORE_STOP_def finishBatch_def CHECKPOINT_INTERVAL_def)

section \<open>Properties of a whole session\<close>

lemma sessionOk_fields [simp]:
  "sessionOk (st\<lparr>lastProcessedPage' := a\<rparr>) = sessionOk st"
  "sessionOk (st\<lparr>emptyPagesInARow := b\<rparr>) = sessionOk st"
  "sessionOk (st\<lparr>shouldStop := c\<rparr>) = sessionOk st"
  "sessionOk (st\<lparr>pagesProcessed := d\<rparr>) = sessionOk st"
  "sessionOk (st\<lparr>linksFoundThisRun := e\<rparr>) = sessionOk st"
  "sessionOk (st\<lparr>blockedCount := f\<rparr>) = sessionOk st"
  "sessionOk (st\<lparr>sleeps := g\<rparr>) = sessionOk st"
  "sessionOk (st\<lparr>start := h\<rparr>) = sessionOk st"
  "sessionOk (st\<lparr>batchCount := i\<rparr>) = sessionOk st"
  "sessionOk (st\<lparr>dispatched := j\<rparr>) = sessionOk st"
  by (simp_all add: sessionOk_def storeInvariant_def)

lemma sessionOk_admit:
  "sessionOk st \<Longrightarrow> linkLine u \<Longrightarrow> sessionOk (admit u st)"
  by (auto simp: sessionOk_def storeInvariant_def admit_def)

lemma sessionOk_admitHrefs:
  "resolvesToLinkLines w \<Longrightarrow> sessionOk st \<Longrightarrow> admitHrefs w hs st = Inr st' \<Longrightarrow> sessionOk st'"
proof (induction hs arbitrary: st)
  case Nil
  then show ?case by simp
next
  case (Cons h hs)
  from Cons.prems(3) obtain u where u: "toAbsolute w h = Some u"
    and rest: "admitHrefs w hs (admit u st) = Inr st'"
    by (auto split: option.splits)
  from Cons.prems(1) u have "linkLine u" by (auto simp: resolvesToLinkLines_def)
  with Cons.prems(2) have "sessionOk (admit u st)" by (rule sessionOk_admit)
  with Cons.prems(1) show ?case using rest by (rule Cons.IH)
qed

lemma sessionOk_processResult:
  "resolvesToLinkLines w \<Longrightarrow> sessionOk st \<Longrightarrow> processResult w r st = Inr (flow, st') \<Longrightarrow>
   sessionOk st'"
  by (auto simp: processResult_def Let_def split: if_splits sum.splits
           dest: sessionOk_admitHrefs [rotated 2])

lemma sessionOk_processResults:
  "resolvesToLinkLines w \<Longrightarrow> sessionOk st \<Longrightarrow> processResults w rs st = Inr st' \<Longrightarrow>
   sessionOk st'"
proof (induction rs arbitrary: st)
  case Nil
  then show ?case by simp
next
  case (Cons r rs)
  show ?case
  proof (cases "processResult w r st")
    case (Inl e)
    with Cons.prems(3) show ?thesis by simp
  next
    case (Inr x)
    obtain flow st1 where x: "x = (flow, st1)" by (cases x)
    from Cons.prems(1,2) Inr [unfolded x] have ok: "sessionOk st1" by (rule sessionOk_processResult)
    show ?thesis
    proof (cases flow)
      case Next
      with Inr x Cons.prems(3) have "processResults w rs st1 = Inr st'" by simp
      with Cons.prems(1) ok show ?thesis by (rule Cons.IH)
    next
      case Break
      with Inr x Cons.prems(3) ok show ?thesis by simp
    qed
  qed
qed

lemma sessionOk_saveCheckpoint:
  "sessionOk st \<Longrightarrow> sessionOk (saveCheckpoint w p st)"
proof -
  assume ok: "sessionOk st"
  then have "checkpointOk (\<lparr>lastProcessedPage = p, totalLinksFound = card (uniqueLinks st),
                             timestamp = clock w (length (saved st))\<rparr>, writeLinks (allLinks st))"
    by (auto simp: checkpointOk_def sessionOk_def storeInvariant_def distinct_card
             intro!: exI [of _ "allLinks st"])
  with ok show ?thesis
    by (simp add: saveCheckpoint_def Let_def sessionOk_def storeInvariant_def)
qed

lemma sessionOk_finishBatch:
  "sessionOk st \<Longrightarrow> sessionOk (finishBatch w st)"
  by (simp add: finishBatch_def Let_def sessionOk_saveCheckpoint)

lemma sessionOk_aggregate:
  "resolvesToLinkLines w \<Longrightarrow> sessionOk st \<Longrightarrow> aggregate w delivered st = Inr (flow, st') \<Longrightarrow>
   sessionOk st'"
  by (auto simp: aggregate_def Let_def sessionOk_finishBatch split: if_splits sum.splits
           dest: sessionOk_processResults [rotated 2])

lemma sessionOk_loopBody:
  "resolvesToLinkLines w \<Longrightarrow> sessionOk st \<Longrightarrow> loopBody w st = Inr (flow, st') \<Longrightarrow>
   sessionOk st'"
proof -
  assume w: "resolvesToLinkLines w" and ok: "sessionOk st"
    and body: "loopBody w st = Inr (flow, st')"
  from ok have "sessionOk (st\<lparr>dispatched := dispatched st @ [batchPages (start st)]\<rparr>)"
    by simp
  with w show ?thesis
    using body [unfolded loopBody_def Let_def] by (rule sessionOk_aggregate)
qed

lemma sessionOk_mainLoop:
  "resolvesToLinkLines w \<Longrightarrow> sessionOk st \<Longrightarrow> mainLoop w st = Inr st' \<Longrightarrow> sessionOk st'"
proof (induction w st rule: mainLoop.induct)
  case (1 w st)
  show ?case
  proof (cases "start st \<le> MAX_PAGE \<and> \<not> shouldStop st")
    case False
    with "1.prems" show ?thesis by (subst (asm) mainLoop.simps) auto
  next
    case True
    show ?thesis
    proof (cases "loopBody w st")
      case (Inl e)
      with True "1.prems"(3) show ?thesis by (subst (asm) mainLoop.simps) simp
    next
      case (Inr x)
      obtain flow st1 where x: "x = (flow, st1)" by (cases x)
      from "1.prems"(1,2) Inr [unfolded x] have ok: "sessionOk st1" by (rule sessionOk_loopBody)
      show ?thesis
      proof (cases flow)
        case Break
        with True Inr x "1.prems"(3) ok show ?thesis by (subst (asm) mainLoop.simps) simp
      next
        case Next
        with True Inr x "1.prems"(3)
        have run: "mainLoop w (st1\<lparr>start := start st1 + int CONCURRENCY\<rparr>) = Inr st'"
          by (subst (asm) mainLoop.simps) simp
        from ok have "sessionOk (st1\<lparr>start := start st1 + int CONCURRENCY\<rparr>)" by simp
        with "1.prems"(1) show ?thesis
          using run by (rule "1.IH" [OF True Inr x [symmetric] Next])
      qed
    qed
  qed
qed

lemma scrape_checkpoints:
  assumes "resolvesToLinkLines w"
    and "scrape w envStartPage progressFile outputFile = Inr st"
  shows "storeInvariant st \<and> saved st \<noteq> [] \<and>
         snd (last (saved st)) = writeLinks (allLinks st) \<and>
         lastProcessedPage (fst (last (saved st))) = lastProcessedPage' st \<and>
         (\<forall>c \<in> set (saved st). \<exists>links.
             readExistingLinks (Contents (snd c)) = Inr links \<and> distinct links \<and>
             length links = totalLinksFound (fst c))"
proof -
  from assms(2) obtain existing st1 where
    load: "readExistingLinks outputFile = Inr existing"
    and run: "mainLoop w (initialSession existing
                (startPage envStartPage (readProgress progressFile))) = Inr st1"
    and st: "st = saveCheckpoint w (lastProcessedPage' st1) st1"
    by (auto simp: scrape_def Let_def split: sum.splits)
  from load have "sessionOk (initialSession existing
                (startPage envStartPage (readProgress progressFile)))"
    by (simp add: sessionOk_def storeInvariant_initial) (simp add: initialSession_def)
  with assms(1) have "sessionOk st1" using run by (rule sessionOk_mainLoop)
  then have ok: "sessionOk st" unfolding st by (rule sessionOk_saveCheckpoint)
  have reload: "\<exists>links. readExistingLinks (Contents (snd c)) = Inr links \<and> distinct links \<and>
             length links = totalLinksFound (fst c)" if "c \<in> set (saved st)" for c
  proof -
    from ok that have "checkpointOk c" by (simp add: sessionOk_def list_all_iff)
    then obtain links where "snd c = writeLinks links" "distinct links"
      "list_all linkLine links" "totalLinksFound (fst c) = length links"
      by (auto simp: checkpointOk_def)
    then show ?thesis
      using writeLinks_roundtrip [of links] by (auto simp: list_all_iff)
  qed
  from ok reload show ?thesis
    by (auto simp: st saveCheckpoint_def Let_def sessionOk_def)
qed

lemma admit_dispatched [simp]: "dispatched (admit u st) = dispatched st"
  by (simp add: admit_def)

lemma admitHrefs_dispatched:
  "admitHrefs w hs st = Inr st' \<Longrightarrow> dispatched st' = dispatched st"
  by (induction hs arbitrary: st) (auto split: option.splits)

lemma processResult_dispatched:
  "processResult w r st = Inr (flow, st') \<Longrightarrow> dispatched st' = dispatched st"
  by (auto simp: processResult_def Let_def split: if_splits sum.splits
           dest: admitHrefs_dispatched)

lemma processResults_dispatched:
  "processResults w rs st = Inr st' \<Longrightarrow> dispatched st' = dispatched st"
proof (induction rs arbitrary: st)
  case Nil
  then show ?case by simp
next
  case (Cons r rs)
  then show ?case
    by (auto split: sum.splits Flow.splits dest!: processResult_dispatched)
qed

lemma finishBatch_dispatched [simp]: "dispatched (finishBatch w st) = dispatched st"
  by (simp add: finishBatch_def saveCheckpoint_def Let_def)

lemma aggregate_dispatched:
  "aggregate w delivered st = Inr (flow, st') \<Longrightarrow> dispatched st' = dispatched st"
  by (auto simp: aggregate_def Let_def split: if_splits sum.splits
           dest!: processResults_dispatched)

lemma loopBody_dispatched:
  "loopBody w st = Inr (flow, st') \<Longrightarrow>
   dispatched st' = dispatched st @ [batchPages (start st)]"
  by (auto simp: loopBody_def Let_def dest!: aggregate_dispatched)

lemma mainLoop_dispatched:
  "mainLoop w st = Inr st' \<Longrightarrow> prefix (dispatched st) (dispatched st')"
proof (induction w st rule: mainLoop.induct)
  case (1 w st)
  show ?case
  proof (cases "start st \<le> MAX_PAGE \<and> \<not> shouldStop st")
    case False
    with "1.prems" show ?thesis by (subst (asm) mainLoop.simps) auto
  next
    case True
    show ?thesis
    proof (cases "loopBody w st")
      case (Inl e)
      with True "1.prems" show ?thesis by (subst (asm) mainLoop.simps) simp
    next
      case (Inr x)
      obtain flow st1 where x: "x = (flow, st1)" by (cases x)
      from loopBody_dispatched [OF Inr [unfolded x]]
      have d: "dispatched st1 = dispatched st @ [batchPages (start st)]" .
      show ?thesis
      proof (cases flow)
        case Break
        with True Inr x "1.prems" d show ?thesis by (subst (asm) mainLoop.simps) simp
      next
        case Next
        with True Inr x "1.prems"
        have run: "mainLoop w (st1\<lparr>start := start st1 + int CONCURRENCY\<rparr>) = Inr st'"
          by (subst (asm) mainLoop.simps) simp
        from "1.IH" [OF True Inr x [symmetric] Next run] d show ?thesis
          by (auto dest: append_prefixD)
      qed
    qed
  qed
qed

text \<open>A loop that is entered dispatches the batch at \<open>start\<close> first.\<close>

lemma mainLoop_first_dispatch:
  assumes "mainLoop w st = Inr st'" and "start st \<le> MAX_PAGE" and "\<not> shouldStop st"
  shows "prefix (dispatched st @ [batchPages (start st)]) (dispatched st')"
proof (cases "loopBody w st")
  case (Inl e)
  with assms show ?thesis by (subst (asm) mainLoop.simps) simp
next
  case (Inr x)
  obtain flow st1 where x: "x = (flow, st1)" by (cases x)
  from loopBody_dispatched [OF Inr [unfolded x]]
  have d: "dispatched st1 = dispatched st @ [batchPages (start st)]" .
  show ?thesis
  proof (cases flow)
    case Break
    with assms Inr x d show ?thesis by (subst (asm) mainLoop.simps) simp
  next
    case Next
    with assms Inr x
    have "mainLoop w (st1\<lparr>start := start st1 + int CONCURRENCY\<rparr>) = Inr st'"
      by (subst (asm) mainLoop.simps) simp
    from mainLoop_dispatched [OF this] d show ?thesis by simp
  qed
qed

lemma scrape_first_dispatch:
  assumes "scrape w envStartPage progressFile outputFile = Inr st"
    and "startPage envStartPage (readProgress progressFile) \<le> MAX_PAGE"
  shows "dispatched st \<noteq> [] \<and>
         hd (dispatched st) = [startPage envStartPage (readProgress progressFile)]"
proof -
  let ?first = "startPage envStartPage (readProgress progressFile)"
  from assms(1) obtain existing st1 where
    run: "mainLoop w (initialSession existing ?first) = Inr st1"
    and st: "st = saveCheckpoint w (lastProcessedPage' st1) st1"
    by (auto simp: scrape_def Let_def split: sum.splits)
  from mainLoop_first_dispatch [OF run] assms(2)
  have "prefix [[?first]] (dispatched st1)"
    by (simp add: initialSession_def batchPages_single)
  then show ?thesis
    by (auto simp: st saveCheckpoint_def Let_def prefix_def)
qed

lemma mainLoop_throws:
  "mainLoop w st = Inl e \<Longrightarrow> e = InvalidURL \<and> (\<exists>h. toAbsolute w h = None)"
proof (induction w st rule: mainLoop.induct)
  case (1 w st)
  show ?case
  proof (cases "start st \<le> MAX_PAGE \<and> \<not> shouldStop st")
    case False
    with "1.prems" show ?thesis by (subst (asm) mainLoop.simps) auto
  next
    case True
    show ?thesis
    proof (cases "loopBody w st")
      case (Inl e')
      with True "1.prems" have "e' = e" by (subst (asm) mainLoop.simps) simp
      with Inl have "aggregate w
          (map (\<lambda>p. toBatchResult w p (fetchPage w (length (dispatched st)) p))
             (batchPages (start st)))
          (st\<lparr>dispatched := dispatched st @ [batchPages (start st)]\<rparr>) = Inl e"
        by (simp add: loopBody_def Let_def)
      from aggregate_throws [OF this] show ?thesis by auto
    next
      case (Inr x)
      obtain flow st1 where x: "x = (flow, st1)" by (cases x)
      show ?thesis
      proof (cases flow)
        case Break
        with True Inr x "1.prems" show ?thesis by (subst (asm) mainLoop.simps) simp
      next
        case Next
        with True Inr x "1.prems"
        have "mainLoop w (st1\<lparr>start := start st1 + int CONCURRENCY\<rparr>) = Inl e"
          by (subst (asm) mainLoop.simps) simp
        then show ?thesis by (rule "1.IH" [OF True Inr x [symmetric] Next])
      qed
    qed
  qed
qed

text \<open>
  A session ends with its final checkpoint, unless the link file cannot be read or a
  matched link is no valid URL.
\<close>

lemma scrape_returns:
  assumes "outputFile \<noteq> ReadFailed" and "\<forall>h. toAbsolute w h \<noteq> None"
  shows "\<exists>st. scrape w envStartPage progressFile outputFile = Inr st"
proof -
  from assms(1) obtain existing where load: "readExistingLinks outputFile = Inr existing"
    by (cases outputFile) (simp_all add: readExistingLinks_def)
  have "\<exists>st1. mainLoop w (initialSession existing
          (startPage envStartPage (readProgress progressFile))) = Inr st1"
  proof (cases "mainLoop w (initialSession existing
          (startPage envStartPage (readProgress progressFile)))")
    case (Inl e)
    from mainLoop_throws [OF this] assms(2) show ?thesis by simp
  next
    case (Inr st1)
    then show ?thesis by simp
  qed
  with load show ?thesis by (auto simp: scrape_def Let_def)
qed

section \<open>Properties of the start page\<close>

text \<open>
  C2, as the code has it. An explicit start page is taken as it is, whatever the progress
  file holds (also when it lies below the persisted page, so that a range is scraped
  again); with none, the session starts at the page after the persisted one, and at page 0
  when nothing is persisted. The start page is the maximum of the claim exactly when the
  override is not below the page after the persisted one, nor below 0. In a whole
  session, the batch dispatched first holds exactly the start page: the page after the
  persisted one when there is no override, the override when there is one.
\<close>

theorem startPage_rule:
  "startPage (Some override) existingProgress = override \<and>
   startPage None (Some p) = lastProcessedPage p + 1 \<and>
   startPage None None = 0 \<and>
   (startPage (Some override) (Some p) = max override (max (lastProcessedPage p + 1) 0)
      \<longleftrightarrow> lastProcessedPage p + 1 \<le> override \<and> 0 \<le> override) \<and>
   (scrape w None (StoredProgress p) outputFile = Inr st \<and> lastProcessedPage p + 1 \<le> MAX_PAGE
      \<longrightarrow> hd (dispatched st) = [lastProcessedPage p + 1]) \<and>
   (scrape w (Some override) progressFile outputFile = Inr st \<and> override \<le> MAX_PAGE
      \<longrightarrow> hd (dispatched st) = [override])"
proof -
  have rule: "startPage (Some override) existingProgress = override"
    "startPage None (Some p) = lastProcessedPage p + 1"
    "startPage None None = 0"
    "startPage (Some override) (Some p) = max override (max (lastProcessedPage p + 1) 0)
      \<longleftrightarrow> lastProcessedPage p + 1 \<le> override \<and> 0 \<le> override"
    for existingProgress
    by (auto simp: startPage_def)
  have resume: "hd (dispatched st) = [lastProcessedPage p + 1]"
    if "scrape w None (StoredProgress p) outputFile = Inr st" "lastProcessedPage p + 1 \<le> MAX_PAGE"
    using scrape_first_dispatch [OF that(1)] that(2) rule(2)
    by (simp add: readProgress_def)
  have forced: "hd (dispatched st) = [override]"
    if "scrape w (Some override) progressFile outputFile = Inr st" "override \<le> MAX_PAGE"
    using scrape_first_dispatch [OF that(1)] that(2) rule(1) by simp
  from rule resume forced show ?thesis by blast
qed

theorem startPage_rule_witness:
  "(let w = \<lparr>BATCH_DELAY_MS = 500, toAbsolute = Some, matchHrefs = (\<lambda>html. []),
             clock = (\<lambda>n. ''2026-01-01T00:00:00.000Z''),
             network = (\<lambda>round url attempt. Response 200 ''Access Denied'')\<rparr>;
        p = \<lparr>lastProcessedPage = 100, totalLinksFound = 0, timestamp = ''2025-12-31T00:00:00.000Z''\<rparr>;
        resumed = (initialSession [] 101)
                    \<lparr>dispatched := [[101], [101], [101]], blockedCount := 3, shouldStop := True,
                     sleeps := [30000, 30000],
                     saved := [(p\<lparr>timestamp := ''2026-01-01T00:00:00.000Z''\<rparr>, [])]\<rparr>;
        forced = (initialSession [] 5)
                    \<lparr>dispatched := [[5], [5], [5]], blockedCount := 3, shouldStop := True,
                     sleeps := [30000, 30000],
                     saved := [(\<lparr>lastProcessedPage = 4, totalLinksFound = 0,
                                 timestamp = ''2026-01-01T00:00:00.000Z''\<rparr>, [])]\<rparr>
    in startPage (Some 5) (Some p) = 5 \<and>
       startPage (Some 200) (Some p) = max 200 (max (lastProcessedPage p + 1) 0) \<and>
       startPage None (Some p) = 101 \<and>
       lastProcessedPage p + 1 \<le> MAX_PAGE \<and>
       scrape w None (StoredProgress p) ENOENT = Inr resumed \<and>
       hd (dispatched resumed) = [101] \<and>
       scrape w (Some 5) (StoredProgress p) ENOENT = Inr forced \<and>
       hd (dispatched forced) = [5])"
proof -
  let ?w = "\<lparr>BATCH_DELAY_MS = 500, toAbsolute = Some, matchHrefs = (\<lambda>html. []),
             clock = (\<lambda>n. ''2026-01-01T00:00:00.000Z''),
             network = (\<lambda>round url attempt. Response 200 ''Access Denied'')\<rparr>"
  let ?p = "\<lparr>lastProcessedPage = 100, totalLinksFound = 0, timestamp = ''2025-12-31T00:00:00.000Z''\<rparr>"
  have blocked: "fetchPage ?w round q = Blocked" for round q
    by (simp add: fetchPage_def fetchWithRetry_def fetchLoop.simps MAX_RETRIES_def
          isBlockedResponse_def retryAfter_def finish_def)
  have run: "mainLoop ?w (initialSession [] s) =
      Inr ((initialSession [] s)\<lparr>dispatched := [[s], [s], [s]], blockedCount := 3,
             shouldStop := True, sleeps := [30000, 30000]\<rparr>)" if "s \<le> MAX_PAGE" for s
    using mainLoop_blocked_run [of "initialSession [] s" 3 ?w] that
    by (simp add: blocked list_all_iff initialSession_def batchPages_single
          MAX_BLOCKED_BEFORE_STOP_def BLOCKED_BACKOFF_MS_def numeral_3_eq_3)
  have resumed: "scrape ?w None (StoredProgress ?p) ENOENT =
      Inr ((initialSession [] 101)
                    \<lparr>dispatched := [[101], [101], [101]], blockedCount := 3, shouldStop := True,
                     sleeps := [30000, 30000],
                     saved := [(?p\<lparr>timestamp := ''2026-01-01T00:00:00.000Z''\<rparr>, [])]\<rparr>)"
    using run [of 101]
    by (simp add: scrape_def readProgress_def readExistingLinks_def startPage_def MAX_PAGE_def
          saveCheckpoint_def writeLinks_def Let_def)
       (simp add: initialSession_def)
  have forced: "scrape ?w (Some 5) (StoredProgress ?p) ENOENT =
      Inr ((initialSession [] 5)
                    \<lparr>dispatched := [[5], [5], [5]], blockedCount := 3, shouldStop := True,
                     sleeps := [30000, 30000],
                     saved := [(\<lparr>lastProcessedPage = 4, totalLinksFound = 0,
                                 timestamp = ''2026-01-01T00:00:00.000Z''\<rparr>, [])]\<rparr>)"
    using run [of 5]
    by (simp add: scrape_def readProgress_def readExistingLinks_def startPage_def MAX_PAGE_def
          saveCheckpoint_def writeLinks_def Let_def)
       (simp add: initialSession_def)
  have le: "lastProcessedPage ?p + 1 \<le> MAX_PAGE" by (simp add: MAX_PAGE_def)
  note rule = startPage_rule [where override = 5 and p = ?p and existingProgress = "Some ?p"
      and w = ?w and outputFile = ENOENT and progressFile = "StoredProgress ?p"
      and st = "(initialSession [] 101)
                    \<lparr>dispatched := [[101], [101], [101]], blockedCount := 3, shouldStop := True,
                     sleeps := [30000, 30000],
                     saved := [(?p\<lparr>timestamp := ''2026-01-01T00:00:00.000Z''\<rparr>, [])]\<rparr>"]
  from rule have a: "startPage (Some 5) (Some ?p) = 5" by blast
  from rule have b: "startPage None (Some ?p) = lastProcessedPage ?p + 1" by blast
  from rule resumed le
  have c: "hd (dispatched ((initialSession [] 101)
                    \<lparr>dispatched := [[101], [101], [101]], blockedCount := 3, shouldStop := True,
                     sleeps := [30000, 30000],
                     saved := [(?p\<lparr>timestamp := ''2026-01-01T00:00:00.000Z''\<rparr>, [])]\<rparr>))
             = [lastProcessedPage ?p + 1]"
    by blast
  have d: "startPage (Some 200) (Some ?p) = max 200 (max (lastProcessedPage ?p + 1) 0)"
    by (simp add: startPage_def)
  from a b c d le resumed forced show ?thesis
    by (simp add: Let_def)
qed

text \<open>
  The claim as stated fails: with page 100 persisted, the override 5 starts the session at
  page 5, not at the maximum 101.
\<close>

theorem startPage_override_below_persisted:
  "startPage (Some 5) (Some \<lparr>lastProcessedPage = 100, totalLinksFound = 7, timestamp = ''t''\<rparr>)
     \<noteq> max 5 (max (lastProcessedPage
                      \<lparr>lastProcessedPage = 100, totalLinksFound = 7, timestamp = ''t''\<rparr> + 1)
                   (startPage None None))"
  by (simp add: startPage_def)

end
